theory Spec2Isabelle
  imports Main
begin

section \<open>Data model\<close>

text \<open>
  The exceptions the modelled code can raise: an index outside a list, \<open>max\<close> of an
  empty collection, an attribute read on \<open>None\<close>, a subscript on \<open>None\<close>.
\<close>

datatype error = IndexError | ValueError | AttributeError | TypeError

text \<open>
  A \<open>Node\<close> object. The lists \<open>go_down\<close> and \<open>go_up\<close> hold references to other
  \<open>Node\<close> objects; a reference is the position of the object in \<open>SkiMap.nodes\<close>.
  The fields \<open>i\<close>, \<open>x\<close>, \<open>y\<close> carry the prefix \<open>node_\<close>. Python integers are \<open>int\<close>;
  positions in lists are \<open>nat\<close>.
\<close>

record node =
  node_i :: nat
  node_x :: nat
  node_y :: nat
  elevation :: int
  go_down :: "nat list"
  go_up :: "nat list"
  longest_path :: int

definition Node :: "nat \<Rightarrow> nat \<Rightarrow> nat \<Rightarrow> int \<Rightarrow> node" where
  "Node index x y e =
     \<lparr>node_i = index, node_x = x, node_y = y, elevation = e,
      go_down = [], go_up = [], longest_path = 0\<rparr>"

text \<open>
  A \<open>SkiMap\<close> object. \<open>nodes\<close> is the list \<open>[None] * width * height\<close> whose slots are
  filled with the \<open>Node\<close> objects as they are created; \<open>summits\<close> is the set of indices.
\<close>

record skimap =
  width :: nat
  height :: nat
  rows :: "int list list"
  nodes :: "node option list"
  summits :: "nat set"

definition SkiMap :: "nat \<Rightarrow> nat \<Rightarrow> int list list \<Rightarrow> skimap" where
  "SkiMap w h rs = \<lparr>width = w, height = h, rows = rs, nodes = [], summits = {}\<rparr>"

text \<open>
  Reading and updating the object behind a reference. A reference that the program
  holds always points at a \<open>Node\<close> object, so \<open>nd\<close> stands for an attribute read that
  cannot fail; where the program indexes \<open>nodes\<close> with a number (in \<open>longest_paths\<close>) the
  failing reads are branches of the model.
\<close>

definition nd :: "node option list \<Rightarrow> nat \<Rightarrow> node" where
  "nd ns j = the (ns ! j)"

definition upd_node :: "nat \<Rightarrow> (node \<Rightarrow> node) \<Rightarrow> node option list \<Rightarrow> node option list" where
  "upd_node j f ns = ns[j := map_option f (ns ! j)]"

section \<open>Edge insertion: \<open>SkiMap._go_down\<close>\<close>

text \<open>
  The \<open>for node in top_nodes\<close> loop of one level: every node of the level gets
  \<open>max(node.longest_path, new_longest_path + level)\<close> (the value \<open>v\<close>) and its
  \<open>go_up\<close> list is appended to \<open>next_nodes\<close>.
\<close>

fun for_top_nodes ::
  "nat list \<Rightarrow> int \<Rightarrow> node option list \<Rightarrow> nat list \<Rightarrow> node option list \<times> nat list" where
  "for_top_nodes [] v ns next_nodes = (ns, next_nodes)"
| "for_top_nodes (a # as) v ns next_nodes =
     for_top_nodes as v
       (upd_node a (\<lambda>n. n\<lparr>longest_path := max (longest_path n) v\<rparr>) ns)
       (next_nodes @ go_up (nd ns a))"

text \<open>
  The \<open>while top_nodes\<close> loop. Nothing bounds the number of its iterations, so a run
  that never leaves the loop is the value \<open>None\<close>.
\<close>

partial_function (option) while_top_nodes ::
  "node option list \<Rightarrow> nat list \<Rightarrow> int \<Rightarrow> int \<Rightarrow> node option list option" where
  "while_top_nodes ns top_nodes new_longest_path level =
     (if top_nodes = [] then Some ns
      else (case for_top_nodes top_nodes (new_longest_path + level) ns [] of
              (ns', next_nodes) \<Rightarrow>
                while_top_nodes ns' next_nodes new_longest_path (level + 1)))"

declare while_top_nodes.simps [code]

text \<open>Lines 85 to 98: the two appends and the update of the longest paths.\<close>

definition append_edge :: "nat \<Rightarrow> nat \<Rightarrow> node option list \<Rightarrow> node option list" where
  "append_edge upper lower ns =
     upd_node lower (\<lambda>n. n\<lparr>go_up := go_up n @ [upper]\<rparr>)
       (upd_node upper (\<lambda>n. n\<lparr>go_down := go_down n @ [lower]\<rparr>) ns)"

definition update_paths :: "nat \<Rightarrow> nat \<Rightarrow> node option list \<Rightarrow> node option list option" where
  "update_paths upper lower ns =
     (if longest_path (nd ns lower) + 1 > longest_path (nd ns upper) then
        (let new_longest_path = longest_path (nd ns lower) + 1;
             ns' = upd_node upper (\<lambda>n. n\<lparr>longest_path := new_longest_path\<rparr>) ns
         in while_top_nodes ns' (go_up (nd ns' upper)) new_longest_path 1)
      else Some ns)"

text \<open>Lines 100 to 106: the maintenance of the summit set.\<close>

definition update_summits :: "nat \<Rightarrow> nat \<Rightarrow> node option list \<Rightarrow> nat set \<Rightarrow> nat set" where
  "update_summits upper lower ns sm =
     (let sm1 = (if length (go_down (nd ns lower)) > 0
                 then sm - {node_i (nd ns lower)} else sm)
      in if length (go_down (nd ns upper)) = 1 \<and> go_up (nd ns upper) = []
         then insert (node_i (nd ns upper)) sm1 else sm1)"

definition SkiMap_go_down :: "skimap \<Rightarrow> nat \<Rightarrow> nat \<Rightarrow> skimap option" where
  "SkiMap_go_down s upper_node down_node =
     (case update_paths upper_node down_node (append_edge upper_node down_node (nodes s)) of
        None \<Rightarrow> None
      | Some ns \<Rightarrow>
          Some (s\<lparr>nodes := ns,
                  summits := update_summits upper_node down_node ns (summits s)\<rparr>))"

section \<open>The grid scan: \<open>SkiMap.build_nodes\<close>\<close>

text \<open>
  The local variables that the two loops carry, the map itself, and \<open>b_log\<close>, which is
  not in the program: it records the map after every call of \<open>_go_down\<close>, so that
  the states between two insertions can be spoken about.
\<close>

record build_state =
  b_map :: skimap
  b_i :: nat
  b_row_nodes :: "nat option list"
  b_prev_row :: "int list option"
  b_prev_row_nodes :: "nat option list option"
  b_log :: "skimap list"

text \<open>
  A computation that returns, raises, or (the value \<open>None\<close>) never finishes.
\<close>

type_synonym 'a result = "(error + 'a) option"

definition bind_result :: "'a result \<Rightarrow> ('a \<Rightarrow> 'b result) \<Rightarrow> 'b result" where
  "bind_result m f =
     (case m of None \<Rightarrow> None | Some (Inl e) \<Rightarrow> Some (Inl e) | Some (Inr a) \<Rightarrow> f a)"

primrec for_loop :: "'a list \<Rightarrow> ('a \<Rightarrow> 's \<Rightarrow> 's result) \<Rightarrow> 's \<Rightarrow> 's result" where
  "for_loop [] body st = Some (Inr st)"
| "for_loop (a # as) body st = bind_result (body a st) (for_loop as body)"

text \<open>
  A call \<open>go_down(upper, lower)\<close> from the scan. An argument that is \<open>None\<close>
  makes the attribute read in \<open>_go_down\<close> raise.
\<close>

definition call_go_down :: "build_state \<Rightarrow> nat option \<Rightarrow> nat option \<Rightarrow> build_state result" where
  "call_go_down b upper lower =
     (case upper of
        None \<Rightarrow> Some (Inl AttributeError)
      | Some u \<Rightarrow>
         (case lower of
            None \<Rightarrow> Some (Inl AttributeError)
          | Some l \<Rightarrow>
             (case SkiMap_go_down (b_map b) u l of
                None \<Rightarrow> None
              | Some s' \<Rightarrow> Some (Inr (b\<lparr>b_map := s', b_log := b_log b @ [s']\<rparr>)))))"

text \<open>Lines 47 to 49: the new node is stored in \<open>nodes[i]\<close> and in \<open>row_nodes[x]\<close>.\<close>

definition cell_new :: "nat \<Rightarrow> int list \<Rightarrow> nat \<Rightarrow> build_state \<Rightarrow> build_state result" where
  "cell_new y row x b =
     (if length row \<le> x then Some (Inl IndexError)
      else if length (nodes (b_map b)) \<le> b_i b \<or> length (b_row_nodes b) \<le> x
      then Some (Inl IndexError)
      else Some (Inr (b\<lparr>b_map := (b_map b)\<lparr>nodes :=
                          (nodes (b_map b))[b_i b := Some (Node (b_i b) x y (row ! x))]\<rparr>,
                        b_row_nodes := (b_row_nodes b)[x := Some (b_i b)]\<rparr>)))"

text \<open>Lines 51 to 55: the neighbour on the left.\<close>

definition cell_left :: "int list \<Rightarrow> nat \<Rightarrow> build_state \<Rightarrow> build_state result" where
  "cell_left row x b =
     (if x > 0 \<and> row ! (x - 1) \<noteq> row ! x then
        (if row ! (x - 1) < row ! x
         then call_go_down b (Some (b_i b)) (b_row_nodes b ! (x - 1))
         else call_go_down b (b_row_nodes b ! (x - 1)) (Some (b_i b)))
      else Some (Inr b))"

text \<open>
  Lines 57 to 61: the neighbour above. \<open>prev_row\<close> is true when it is a list that is
  not empty.
\<close>

definition cell_up :: "int list \<Rightarrow> nat \<Rightarrow> build_state \<Rightarrow> build_state result" where
  "cell_up row x b =
     (case b_prev_row b of
        None \<Rightarrow> Some (Inr b)
      | Some prev_row \<Rightarrow>
          if prev_row = [] then Some (Inr b)
          else if length prev_row \<le> x then Some (Inl IndexError)
          else if prev_row ! x \<noteq> row ! x then
            (case b_prev_row_nodes b of
               None \<Rightarrow> Some (Inl TypeError)
             | Some prev_row_nodes \<Rightarrow>
                 if length prev_row_nodes \<le> x then Some (Inl IndexError)
                 else if prev_row ! x < row ! x
                 then call_go_down b (Some (b_i b)) (prev_row_nodes ! x)
                 else call_go_down b (prev_row_nodes ! x) (Some (b_i b)))
          else Some (Inr b))"

text \<open>The body of the loop over \<open>x\<close>, lines 47 to 63.\<close>

definition build_cell :: "nat \<Rightarrow> int list \<Rightarrow> nat \<Rightarrow> build_state \<Rightarrow> build_state result" where
  "build_cell y row x b =
     bind_result (cell_new y row x b) (\<lambda>b1.
     bind_result (cell_left row x b1) (\<lambda>b2.
     bind_result (cell_up row x b2) (\<lambda>b3.
     Some (Inr (b3\<lparr>b_i := b_i b3 + 1\<rparr>)))))"

text \<open>The body of the loop over \<open>y\<close>, lines 42 to 67.\<close>

definition build_row :: "nat \<Rightarrow> build_state \<Rightarrow> build_state result" where
  "build_row y b =
     (let rs = rows (b_map b); w = width (b_map b) in
      if length rs \<le> y then Some (Inl IndexError)
      else
        bind_result
          (for_loop [0..<w] (build_cell y (rs ! y)) (b\<lparr>b_row_nodes := replicate w None\<rparr>))
          (\<lambda>b'. Some (Inr (b'\<lparr>b_prev_row := Some (rs ! y),
                                 b_prev_row_nodes := Some (b_row_nodes b')\<rparr>))))"

definition build_init :: "skimap \<Rightarrow> build_state" where
  "build_init s =
     \<lparr>b_map = s\<lparr>nodes := replicate (width s * height s) None\<rparr>,
      b_i = 0, b_row_nodes = [], b_prev_row = None, b_prev_row_nodes = None,
      b_log = []\<rparr>"

definition build_nodes_log :: "skimap \<Rightarrow> build_state result" where
  "build_nodes_log s = for_loop [0..<height s] build_row (build_init s)"

definition SkiMap_build_nodes :: "skimap \<Rightarrow> skimap result" where
  "SkiMap_build_nodes s = bind_result (build_nodes_log s) (\<lambda>b. Some (Inr (b_map b)))"

section \<open>The queries: \<open>SkiMap.longest_paths\<close> and \<open>find_longest_path\<close>\<close>

text \<open>
  Python leaves the order in which a set is iterated open; the model iterates the
  summit set in ascending order of the indices.
\<close>

definition iter_summits :: "skimap \<Rightarrow> nat list" where
  "iter_summits s = sorted_list_of_set (summits s)"

text \<open>
  Reading \<open>nodes[i].longest_path\<close> for the indices of a list in turn: the first index
  outside \<open>nodes\<close> raises \<open>IndexError\<close>, the first slot that still holds \<open>None\<close> raises
  \<open>AttributeError\<close>.
\<close>

primrec check_nodes :: "node option list \<Rightarrow> nat list \<Rightarrow> error option" where
  "check_nodes ns [] = None"
| "check_nodes ns (i # js) =
     (if length ns \<le> i then Some IndexError
      else if ns ! i = None then Some AttributeError
      else check_nodes ns js)"

text \<open>
  \<open>max(xs, key=f)\<close>: the first element with the greatest key. An empty \<open>xs\<close> raises
  \<open>ValueError\<close>; the key is \<open>nodes[s_i].longest_path\<close>, and the first key that cannot be
  read raises.
\<close>

fun max_key_from :: "('a \<Rightarrow> int) \<Rightarrow> 'a \<Rightarrow> 'a list \<Rightarrow> 'a" where
  "max_key_from f m [] = m"
| "max_key_from f m (a # as) = max_key_from f (if f m < f a then a else m) as"

definition max_key :: "node option list \<Rightarrow> nat list \<Rightarrow> error + nat" where
  "max_key ns xs =
     (case xs of
        [] \<Rightarrow> Inl ValueError
      | a # as \<Rightarrow>
          (case check_nodes ns xs of
             Some e \<Rightarrow> Inl e
           | None \<Rightarrow> Inr (max_key_from (\<lambda>s_i. longest_path (nd ns s_i)) a as)))"

text \<open>
  Lines 73 to 78. The result is the list of the references to the nodes of the summits
  with the wanted \<open>longest_path\<close>.
\<close>

definition SkiMap_longest_paths :: "skimap \<Rightarrow> int option \<Rightarrow> error + nat list" where
  "SkiMap_longest_paths s path_len =
     (case (case path_len of
              None \<Rightarrow>
                (case max_key (nodes s) (iter_summits s) of
                   Inl e \<Rightarrow> Inl e
                 | Inr upper_summit_index \<Rightarrow>
                     Inr (longest_path (nd (nodes s) upper_summit_index)))
            | Some p \<Rightarrow> Inr p) of
        Inl e \<Rightarrow> Inl e
      | Inr p \<Rightarrow>
          (case check_nodes (nodes s) (iter_summits s) of
             Some e \<Rightarrow> Inl e
           | None \<Rightarrow>
               Inr (filter (\<lambda>n. longest_path (nd (nodes s) n) = p) (iter_summits s))))"

text \<open>
  Lines 146 to 156, one level of the walk below a summit: \<open>level_nodes\<close> is the set of
  the nodes below the previous level (each once, here in order of first occurrence);
  those on a longest path are kept and lower the running minimum.
\<close>

definition level_walk :: "skimap \<Rightarrow> int \<Rightarrow> int \<Rightarrow> nat list \<times> int \<Rightarrow> nat list \<times> int" where
  "level_walk s max_path_len level st =
     (let level_nodes = remdups (concat (map (\<lambda>n. go_down (nd (nodes s) n)) (fst st)))
      in fold (\<lambda>n (prev_level_nodes, min_elevation).
                 if longest_path (nd (nodes s) n) = max_path_len - level
                 then (prev_level_nodes @ [n], min (elevation (nd (nodes s) n)) min_elevation)
                 else (prev_level_nodes, min_elevation))
              level_nodes ([], snd st))"

text \<open>Lines 142 to 158: the vertical drop below one summit.\<close>

definition vertical_drop :: "skimap \<Rightarrow> int \<Rightarrow> nat \<Rightarrow> int" where
  "vertical_drop s max_path_len path_upper_node =
     (let upper_node_elevation = elevation (nd (nodes s) path_upper_node);
          st = fold (level_walk s max_path_len) [1..max_path_len]
                 ([path_upper_node], upper_node_elevation)
      in upper_node_elevation - snd st)"

text \<open>
  Lines 136 to 168, on the map that \<open>build_nodes\<close> has filled. The loop of lines 164
  to 166 only prints and is left out.
\<close>

definition report :: "skimap \<Rightarrow> error + int \<times> int" where
  "report s =
     (case SkiMap_longest_paths s None of
        Inl e \<Rightarrow> Inl e
      | Inr paths \<Rightarrow>
         (case paths of
            [] \<Rightarrow> Inl IndexError
          | p0 # _ \<Rightarrow>
              (let max_path_len = longest_path (nd (nodes s) p0)
               in Inr (max_path_len,
                       fold (\<lambda>path_upper_node max_vertical_drop.
                               if vertical_drop s max_path_len path_upper_node > max_vertical_drop
                               then vertical_drop s max_path_len path_upper_node
                               else max_vertical_drop)
                            paths 0))))"

definition find_longest_path :: "skimap \<Rightarrow> (int \<times> int) result" where
  "find_longest_path s =
     bind_result (SkiMap_build_nodes s) (\<lambda>s'. Some (report s'))"

section \<open>The two scenarios\<close>

definition flat_grid :: skimap where
  "flat_grid = SkiMap 2 2 [[5, 5], [5, 5]]"

definition single_row :: skimap where
  "single_row = SkiMap 3 1 [[3, 2, 1]]"

section \<open>Predicates on the graph\<close>

text \<open>A reference that points at a \<open>Node\<close> object of the list.\<close>

definition valid :: "node option list \<Rightarrow> nat \<Rightarrow> bool" where
  "valid ns j \<longleftrightarrow> j < length ns \<and> ns ! j \<noteq> None"

text \<open>
  From \<open>ns\<close> to \<open>ns'\<close> the same nodes exist, no attribute of a node but \<open>longest_path\<close>
  has changed, and no \<open>longest_path\<close> has become smaller.
\<close>

definition paths_grow :: "node option list \<Rightarrow> node option list \<Rightarrow> bool" where
  "paths_grow ns ns' \<longleftrightarrow>
     length ns' = length ns \<and>
     (\<forall>k. valid ns' k = valid ns k \<and>
          (nd ns' k)\<lparr>longest_path := 0\<rparr> = (nd ns k)\<lparr>longest_path := 0\<rparr> \<and>
          longest_path (nd ns k) \<le> longest_path (nd ns' k))"

text \<open>Two states for concrete runs: two nodes without an edge, and with the edge inserted.\<close>

definition two_nodes :: skimap where
  "two_nodes =
     \<lparr>width = 2, height = 1, rows = [[3, 2]],
      nodes = [Some (Node 0 0 0 3), Some (Node 1 1 0 2)], summits = {}\<rparr>"

definition two_nodes_linked :: skimap where
  "two_nodes_linked =
     \<lparr>width = 2, height = 1, rows = [[3, 2]],
      nodes = [Some ((Node 0 0 0 3)\<lparr>go_down := [1], longest_path := 1\<rparr>),
               Some ((Node 1 1 0 2)\<lparr>go_up := [0]\<rparr>)],
      summits = {0}\<rparr>"

text \<open>
  A chain in the making: of three nodes of falling elevation the first two are linked,
  so that an edge from the second to the third has an ancestor to propagate to.
\<close>

definition three_nodes :: skimap where
  "three_nodes =
     \<lparr>width = 3, height = 1, rows = [[3, 2, 1]],
      nodes = [Some ((Node 0 0 0 3)\<lparr>go_down := [1], longest_path := 1\<rparr>),
               Some ((Node 1 1 0 2)\<lparr>go_up := [0]\<rparr>),
               Some (Node 2 2 0 1)],
      summits = {0}\<rparr>"

text \<open>Elevation strictly increases along every \<open>go_up\<close> reference, and the references are valid.\<close>

definition ascending :: "node option list \<Rightarrow> bool" where
  "ascending ns \<longleftrightarrow>
     (\<forall>a<length ns. case ns ! a of
        None \<Rightarrow> True
      | Some n \<Rightarrow> (\<forall>b\<in>set (go_up n). valid ns b \<and> elevation n < elevation (nd ns b)))"

text \<open>The \<open>go_up\<close> references as a relation: \<open>b\<close> is in the \<open>go_up\<close> list of \<open>a\<close>.\<close>

definition up_rel :: "node option list \<Rightarrow> (nat \<times> nat) set" where
  "up_rel ns = {(a, b). b \<in> set (go_up (nd ns a))}"

text \<open>
  The invariant of \<open>longest_path\<close>: 0 for a node without \<open>go_down\<close> entries, otherwise
  one more than the greatest \<open>longest_path\<close> among the nodes of its \<open>go_down\<close> list.
\<close>

definition path_inv :: "node option list \<Rightarrow> bool" where
  "path_inv ns \<longleftrightarrow>
     (\<forall>a<length ns. case ns ! a of
        None \<Rightarrow> True
      | Some n \<Rightarrow>
          longest_path n =
            (if go_down n = [] then 0
             else 1 + Max ((\<lambda>c. longest_path (nd ns c)) ` set (go_down n))))"

text \<open>
  Every \<open>go_up\<close> entry has its \<open>go_down\<close> counterpart and the other way round; no
  \<open>longest_path\<close> is negative.
\<close>

definition mirrored :: "node option list \<Rightarrow> bool" where
  "mirrored ns \<longleftrightarrow>
     (\<forall>a b. valid ns a \<longrightarrow>
        (b \<in> set (go_up (nd ns a)) \<longrightarrow> a \<in> set (go_down (nd ns b))) \<and>
        (b \<in> set (go_down (nd ns a)) \<longrightarrow> valid ns b \<and> a \<in> set (go_up (nd ns b))))"

definition nonneg :: "node option list \<Rightarrow> bool" where
  "nonneg ns \<longleftrightarrow> (\<forall>a. valid ns a \<longrightarrow> 0 \<le> longest_path (nd ns a))"

text \<open>
  The two halves of the invariant at one node: it lies above every node below it, and
  it is reached by one of them.
\<close>

definition path_ge :: "node option list \<Rightarrow> nat \<Rightarrow> bool" where
  "path_ge ns a \<longleftrightarrow>
     (\<forall>c\<in>set (go_down (nd ns a)). longest_path (nd ns c) + 1 \<le> longest_path (nd ns a))"

definition path_le :: "node option list \<Rightarrow> nat \<Rightarrow> bool" where
  "path_le ns a \<longleftrightarrow>
     (if go_down (nd ns a) = [] then longest_path (nd ns a) = 0
      else \<exists>c\<in>set (go_down (nd ns a)). longest_path (nd ns a) \<le> longest_path (nd ns c) + 1)"

text \<open>
  The invariant of the \<open>while\<close> loop at the level \<open>ts\<close>, where \<open>v\<close> is the value the level
  before has received: an edge may fall short only from a node of \<open>ts\<close> to a node that
  holds at most \<open>v\<close>, and every node of \<open>ts\<close> has a node below it that holds at least \<open>v\<close>.
\<close>

definition loop_inv :: "node option list \<Rightarrow> nat list \<Rightarrow> int \<Rightarrow> bool" where
  "loop_inv ns ts v \<longleftrightarrow>
     (\<forall>a. valid ns a \<longrightarrow> path_le ns a \<and>
        (\<forall>c\<in>set (go_down (nd ns a)).
           longest_path (nd ns c) + 1 \<le> longest_path (nd ns a) \<or>
           a \<in> set ts \<and> longest_path (nd ns c) \<le> v)) \<and>
     (\<forall>t\<in>set ts. valid ns t \<and> (\<exists>c\<in>set (go_down (nd ns t)). v \<le> longest_path (nd ns c)))"

text \<open>The \<open>Node\<close> objects of the list, and the indices of those that are summits by
  the definition: no \<open>go_up\<close> entry and at least one \<open>go_down\<close> entry.\<close>

definition node_objects :: "node option list \<Rightarrow> node list" where
  "node_objects ns = concat (map (\<lambda>e. case e of None \<Rightarrow> [] | Some n \<Rightarrow> [n]) ns)"

definition summit_indices :: "node option list \<Rightarrow> nat set" where
  "summit_indices ns =
     set (map node_i (filter (\<lambda>n. go_up n = [] \<and> go_down n \<noteq> []) (node_objects ns)))"

text \<open>
  Every node carries its own position as its index; with that, the summits by the
  definition are the positions of \<open>summit_set\<close>.
\<close>

definition indices_ok :: "node option list \<Rightarrow> bool" where
  "indices_ok ns \<longleftrightarrow> (\<forall>a. valid ns a \<longrightarrow> node_i (nd ns a) = a)"

definition summit_set :: "node option list \<Rightarrow> nat set" where
  "summit_set ns = {a. valid ns a \<and> go_up (nd ns a) = [] \<and> go_down (nd ns a) \<noteq> []}"

text \<open>
  The edges between the pairs of \<open>D\<close>, the pairs of neighbours compared so far: the
  higher node of a pair holds the lower one once in its \<open>go_down\<close> list, the lower
  one holds the higher one once in its \<open>go_up\<close> list, and nothing else is in the lists.
\<close>

definition edges_inv :: "(nat \<times> nat) set \<Rightarrow> node option list \<Rightarrow> bool" where
  "edges_inv D ns \<longleftrightarrow>
     (\<forall>a b. valid ns a \<longrightarrow>
        count_list (go_down (nd ns a)) b =
          (if (a, b) \<in> D \<and> elevation (nd ns b) < elevation (nd ns a) then 1 else 0) \<and>
        count_list (go_up (nd ns a)) b =
          (if (a, b) \<in> D \<and> elevation (nd ns a) < elevation (nd ns b) then 1 else 0))"

text \<open>The node of the cell with row-major position \<open>j\<close>.\<close>

definition cell_node :: "skimap \<Rightarrow> node \<Rightarrow> nat \<Rightarrow> bool" where
  "cell_node s0 n j \<longleftrightarrow>
     node_i n = j \<and> node_x n = j mod width s0 \<and> node_y n = j div width s0 \<and>
     elevation n = rows s0 ! (j div width s0) ! (j mod width s0)"

text \<open>
  The state of the scan of the map \<open>s0\<close> when the first \<open>n\<close> nodes exist and the pairs
  of \<open>D\<close> have been compared.
\<close>

definition scan_inv :: "skimap \<Rightarrow> nat \<Rightarrow> (nat \<times> nat) set \<Rightarrow> build_state \<Rightarrow> bool" where
  "scan_inv s0 n D b \<longleftrightarrow>
     width (b_map b) = width s0 \<and> height (b_map b) = height s0 \<and>
     rows (b_map b) = rows s0 \<and>
     length (nodes (b_map b)) = width s0 * height s0 \<and>
     (\<forall>j. valid (nodes (b_map b)) j \<longleftrightarrow> j < n) \<and>
     (\<forall>j<n. cell_node s0 (nd (nodes (b_map b)) j) j) \<and>
     sym D \<and> (\<forall>a b. (a, b) \<in> D \<longrightarrow> a < n \<and> b < n) \<and>
     edges_inv D (nodes (b_map b)) \<and>
     path_inv (nodes (b_map b)) \<and> nonneg (nodes (b_map b)) \<and>
     (summits s0 = {} \<longrightarrow> summits (b_map b) = summit_set (nodes (b_map b))) \<and>
     (\<forall>t\<in>set (b_log b). path_inv (nodes t) \<and>
        (summits s0 = {} \<longrightarrow> summits t = summit_indices (nodes t)))"

text \<open>A grid of \<open>height\<close> rows of \<open>width\<close> elevations each.\<close>

definition rectangular :: "skimap \<Rightarrow> bool" where
  "rectangular s \<longleftrightarrow> length (rows s) = height s \<and> (\<forall>r\<in>set (rows s). length r = width s)"

text \<open>
  Two row-major positions of a grid of width \<open>w\<close> that are neighbours in a row or in a
  column, and the pairs of neighbours among the first \<open>k\<close> cells.
\<close>

definition adj :: "nat \<Rightarrow> nat \<Rightarrow> nat \<Rightarrow> bool" where
  "adj w a b \<longleftrightarrow>
     (a + 1 = b \<and> b mod w \<noteq> 0) \<or> (b + 1 = a \<and> a mod w \<noteq> 0) \<or> a + w = b \<or> b + w = a"

definition done_pairs :: "nat \<Rightarrow> nat \<Rightarrow> (nat \<times> nat) set" where
  "done_pairs w k = {(a, b). a < k \<and> b < k \<and> adj w a b}"

text \<open>
  The local variables of the scan in front of the cell \<open>(x, y)\<close>: the counter, the
  nodes of the row so far, and the row above with its nodes.
\<close>

definition row_inv :: "skimap \<Rightarrow> nat \<Rightarrow> nat \<Rightarrow> build_state \<Rightarrow> bool" where
  "row_inv s0 y x b \<longleftrightarrow>
     b_i b = y * width s0 + x \<and>
     length (b_row_nodes b) = width s0 \<and>
     (\<forall>x'<x. b_row_nodes b ! x' = Some (y * width s0 + x')) \<and>
     (if y = 0 then b_prev_row b = None
      else b_prev_row b = Some (rows s0 ! (y - 1)) \<and>
           (\<exists>prn. b_prev_row_nodes b = Some prn \<and> length prn = width s0 \<and>
              (\<forall>x'<width s0. prn ! x' = Some ((y - 1) * width s0 + x'))))"

text \<open>The local variables of the scan in front of row \<open>y\<close>.\<close>

definition row_pre :: "skimap \<Rightarrow> nat \<Rightarrow> build_state \<Rightarrow> bool" where
  "row_pre s0 y b \<longleftrightarrow>
     b_i b = y * width s0 \<and>
     (if y = 0 then b_prev_row b = None
      else b_prev_row b = Some (rows s0 ! (y - 1)) \<and>
           (\<exists>prn. b_prev_row_nodes b = Some prn \<and> length prn = width s0 \<and>
              (\<forall>x'<width s0. prn ! x' = Some ((y - 1) * width s0 + x'))))"

text \<open>The cells \<open>(x, y)\<close> and \<open>(x', y')\<close> are next to each other in a row or in a column.\<close>

definition neighbours :: "nat \<Rightarrow> nat \<Rightarrow> nat \<Rightarrow> nat \<Rightarrow> bool" where
  "neighbours x y x' y' \<longleftrightarrow>
     (x = x' \<and> (y + 1 = y' \<or> y' + 1 = y)) \<or> (y = y' \<and> (x + 1 = x' \<or> x' + 1 = x))"

text \<open>
  The reconstruction as the specification words it. The frontier at level 0 below the
  summit \<open>S\<close> is \<open>S\<close> alone; the frontier at level \<open>k\<close> holds the nodes of the \<open>go_down\<close>
  lists of the frontier before whose \<open>longest_path\<close> is exactly \<open>L - k\<close>.
\<close>

fun frontier :: "skimap \<Rightarrow> int \<Rightarrow> nat \<Rightarrow> nat \<Rightarrow> nat set" where
  "frontier s L S 0 = {S}"
| "frontier s L S (Suc k) =
     (\<Union>p\<in>frontier s L S k.
        {c \<in> set (go_down (nd (nodes s) p)).
           longest_path (nd (nodes s) c) = L - int (Suc k)})"

text \<open>
  The drop below \<open>S\<close>: its elevation minus the least elevation in the frontiers of the
  levels 0 to \<open>L\<close>. The maximal summits are the summits whose \<open>longest_path\<close> is \<open>L\<close>.
\<close>

definition drop_spec :: "skimap \<Rightarrow> int \<Rightarrow> nat \<Rightarrow> int" where
  "drop_spec s L S =
     elevation (nd (nodes s) S) -
     Min ((\<lambda>c. elevation (nd (nodes s) c)) ` (\<Union>k\<in>{0..nat L}. frontier s L S k))"

definition maximal_summits :: "skimap \<Rightarrow> int \<Rightarrow> nat set" where
  "maximal_summits s L = {S \<in> summits s. longest_path (nd (nodes s) S) = L}"

text \<open>The map that the scan of \<open>single_row\<close> returns.\<close>

definition single_row_built :: skimap where
  "single_row_built =
     \<lparr>width = 3, height = 1, rows = [[3, 2, 1]],
      nodes =
        [Some ((Node 0 0 0 3)\<lparr>go_down := [1], longest_path := 2\<rparr>),
         Some ((Node 1 1 0 2)\<lparr>go_down := [2], go_up := [0], longest_path := 1\<rparr>),
         Some ((Node 2 2 0 1)\<lparr>go_up := [1]\<rparr>)],
      summits = {0}\<rparr>"

section \<open>Properties of the edge insertion\<close>

lemma length_upd_node [simp]: "length (upd_node j f ns) = length ns"
  by (simp add: upd_node_def)

lemma valid_upd_node [simp]: "valid (upd_node j f ns) k = valid ns k"
  by (cases "k = j") (auto simp: valid_def upd_node_def)

lemma nd_upd_node:
  "nd (upd_node j f ns) k = (if k = j \<and> valid ns j then f (nd ns k) else nd ns k)"
proof (cases "j < length ns")
  case True
  show ?thesis
  proof (cases "ns ! j")
    case None
    with True have "ns[j := None] = ns" by (metis list_update_id)
    with None True show ?thesis by (simp add: nd_def upd_node_def valid_def)
  next
    case (Some n)
    with True show ?thesis by (auto simp: nd_def upd_node_def valid_def)
  qed
next
  case False
  then show ?thesis by (simp add: nd_def upd_node_def valid_def list_update_beyond)
qed

lemma nd_upd_path_fields [simp]:
  "go_up (nd (upd_node a (\<lambda>n. n\<lparr>longest_path := g n\<rparr>) ns) k) = go_up (nd ns k)"
  "go_down (nd (upd_node a (\<lambda>n. n\<lparr>longest_path := g n\<rparr>) ns) k) = go_down (nd ns k)"
  "elevation (nd (upd_node a (\<lambda>n. n\<lparr>longest_path := g n\<rparr>) ns) k) = elevation (nd ns k)"
  "node_i (nd (upd_node a (\<lambda>n. n\<lparr>longest_path := g n\<rparr>) ns) k) = node_i (nd ns k)"
  by (simp_all add: nd_upd_node)

lemma nth_upd_node_Some:
  "k < length ns \<Longrightarrow> ns ! k = Some n \<Longrightarrow>
   upd_node j f ns ! k = Some (if k = j then f n else n)"
  by (auto simp: upd_node_def)

lemma paths_grow_refl [simp]: "paths_grow ns ns"
  by (simp add: paths_grow_def)

lemma paths_grow_trans: "paths_grow a b \<Longrightarrow> paths_grow b c \<Longrightarrow> paths_grow a c"
  unfolding paths_grow_def by (metis order_trans)

lemma same_but_path:
  "(n'::node)\<lparr>longest_path := 0\<rparr> = n\<lparr>longest_path := 0\<rparr> \<Longrightarrow>
   go_up n' = go_up n \<and> go_down n' = go_down n \<and> elevation n' = elevation n \<and>
   node_i n' = node_i n \<and> node_x n' = node_x n \<and> node_y n' = node_y n"
  by (cases n, cases n') simp

lemma paths_grow_fields:
  assumes "paths_grow ns ns'"
  shows "go_up (nd ns' k) = go_up (nd ns k)" "go_down (nd ns' k) = go_down (nd ns k)"
    "elevation (nd ns' k) = elevation (nd ns k)" "node_i (nd ns' k) = node_i (nd ns k)"
    "valid ns' k = valid ns k" "length ns' = length ns"
    "longest_path (nd ns k) \<le> longest_path (nd ns' k)"
  using assms same_but_path [of "nd ns' k" "nd ns k"] by (simp_all add: paths_grow_def)

lemma paths_grow_upd:
  "(\<And>n. (f n)\<lparr>longest_path := 0\<rparr> = n\<lparr>longest_path := 0\<rparr> \<and> longest_path n \<le> longest_path (f n)) \<Longrightarrow>
   paths_grow ns (upd_node j f ns)"
  by (simp add: paths_grow_def nd_upd_node)

lemma for_top_nodes_snd:
  "snd (for_top_nodes ts v ns nx) = nx @ concat (map (\<lambda>a. go_up (nd ns a)) ts)"
  by (induction ts arbitrary: ns nx) simp_all

lemma for_top_nodes_length [simp]: "length (fst (for_top_nodes ts v ns nx)) = length ns"
  by (induction ts arbitrary: ns nx) simp_all

lemma for_top_nodes_valid [simp]: "valid (fst (for_top_nodes ts v ns nx)) k = valid ns k"
  by (induction ts arbitrary: ns nx) simp_all

lemma for_top_nodes_nd:
  "nd (fst (for_top_nodes ts v ns nx)) k =
     (if k \<in> set ts \<and> valid ns k
      then (nd ns k)\<lparr>longest_path := max (longest_path (nd ns k)) v\<rparr> else nd ns k)"
  by (induction ts arbitrary: ns nx) (auto simp: nd_upd_node)

lemma for_top_nodes_grow: "paths_grow ns (fst (for_top_nodes ts v ns nx))"
  by (simp add: paths_grow_def for_top_nodes_nd)

lemma while_top_nodes_grow:
  "while_top_nodes ns ts new level = Some r \<Longrightarrow> paths_grow ns r"
proof (induction ns ts new level r rule: while_top_nodes.raw_induct [rotated 1, consumes 1])
  case (1 w ns ts new level r)
  show ?case
  proof (cases "ts = []")
    case True
    with 1(2) show ?thesis by simp
  next
    case False
    obtain ns' nx where f: "for_top_nodes ts (new + level) ns [] = (ns', nx)"
      by (cases "for_top_nodes ts (new + level) ns []")
    with False 1(2) have "w ns' nx new (level + 1) = Some r" by simp
    then have "paths_grow ns' r" by (rule 1(1))
    moreover have "paths_grow ns ns'"
      using for_top_nodes_grow [of ns ts "new + level" "[]"] f by simp
    ultimately show ?thesis by (rule paths_grow_trans [rotated])
  qed
qed

lemma length_append_edge [simp]: "length (append_edge u l ns) = length ns"
  by (simp add: append_edge_def)

lemma valid_append_edge [simp]: "valid (append_edge u l ns) k = valid ns k"
  by (simp add: append_edge_def)

lemma append_edge_fields:
  "longest_path (nd (append_edge u l ns) k) = longest_path (nd ns k)"
  "elevation (nd (append_edge u l ns) k) = elevation (nd ns k)"
  "node_i (nd (append_edge u l ns) k) = node_i (nd ns k)"
  "go_down (nd (append_edge u l ns) k) =
     (if k = u \<and> valid ns u then go_down (nd ns k) @ [l] else go_down (nd ns k))"
  "go_up (nd (append_edge u l ns) k) =
     (if k = l \<and> valid ns l then go_up (nd ns k) @ [u] else go_up (nd ns k))"
  by (simp_all add: append_edge_def nd_upd_node)

lemma update_paths_grow:
  assumes "update_paths u l ns = Some r"
  shows "paths_grow ns r"
proof (cases "longest_path (nd ns l) + 1 > longest_path (nd ns u)")
  case True
  let ?ns' = "upd_node u (\<lambda>n. n\<lparr>longest_path := longest_path (nd ns l) + 1\<rparr>) ns"
  from True assms
  have "while_top_nodes ?ns' (go_up (nd ?ns' u)) (longest_path (nd ns l) + 1) 1 = Some r"
    by (simp add: update_paths_def Let_def)
  then have "paths_grow ?ns' r" by (rule while_top_nodes_grow)
  moreover have "paths_grow ns ?ns'"
    using True by (auto simp: paths_grow_def nd_upd_node)
  ultimately show ?thesis by (rule paths_grow_trans [rotated])
next
  case False
  with assms show ?thesis by (simp add: update_paths_def)
qed

lemma valid_nth: "valid ns k \<Longrightarrow> ns ! k = Some (nd ns k)"
  by (auto simp: valid_def nd_def)

text \<open>
  C6: an edge insertion that returns leaves every node in place and its \<open>longest_path\<close>
  at least as large as it was before the insertion.
\<close>

theorem go_down_monotone:
  assumes "SkiMap_go_down s u l = Some s'"
    and "k < length (nodes s)" and "nodes s ! k = Some n"
  shows "\<exists>n'. nodes s' ! k = Some n' \<and> longest_path n \<le> longest_path n'"
proof -
  from assms(1) obtain r where r: "update_paths u l (append_edge u l (nodes s)) = Some r"
    and s': "nodes s' = r"
    by (auto simp: SkiMap_go_down_def split: option.splits)
  have g: "paths_grow (append_edge u l (nodes s)) r"
    using r by (rule update_paths_grow)
  have v: "valid (nodes s) k" using assms(2,3) by (simp add: valid_def)
  then have "valid r k" using paths_grow_fields(5) [OF g, of k] by simp
  then have "r ! k = Some (nd r k)" by (rule valid_nth)
  moreover have "longest_path n \<le> longest_path (nd r k)"
    using paths_grow_fields(7) [OF g, of k] assms(3)
    by (simp add: append_edge_fields) (simp add: nd_def)
  ultimately show ?thesis using s' by simp
qed

theorem go_down_monotone_witness:
  "SkiMap_go_down two_nodes 0 1 = Some two_nodes_linked \<and>
   0 < length (nodes two_nodes) \<and>
   nodes two_nodes ! 0 = Some (Node 0 0 0 3) \<and>
   (\<exists>n'. nodes two_nodes_linked ! 0 = Some n' \<and>
      longest_path (Node 0 0 0 3) \<le> longest_path n')"
proof -
  have a: "SkiMap_go_down two_nodes 0 1 = Some two_nodes_linked" by code_simp
  have b: "0 < length (nodes two_nodes)" by code_simp
  have c: "nodes two_nodes ! 0 = Some (Node 0 0 0 3)" by code_simp
  from go_down_monotone [OF a b c] a b c show ?thesis by simp
qed

section \<open>The single row\<close>

text \<open>
  C9: on the grid \<open>[[3, 2, 1]]\<close> the scan leaves the chain of edges from the cell of
  elevation 3 to the cell of elevation 2 to the cell of elevation 1, the only summit is
  the node of elevation 3, and the reported pair is longest path 2, vertical drop 2.
\<close>

theorem single_row_scenario:
  "SkiMap_build_nodes single_row =
     Some (Inr \<lparr>width = 3, height = 1, rows = [[3, 2, 1]],
       nodes =
         [Some \<lparr>node_i = 0, node_x = 0, node_y = 0, elevation = 3,
                 go_down = [1], go_up = [], longest_path = 2\<rparr>,
          Some \<lparr>node_i = 1, node_x = 1, node_y = 0, elevation = 2,
                 go_down = [2], go_up = [0], longest_path = 1\<rparr>,
          Some \<lparr>node_i = 2, node_x = 2, node_y = 0, elevation = 1,
                 go_down = [], go_up = [1], longest_path = 0\<rparr>],
       summits = {0}\<rparr>)
   \<and> find_longest_path single_row = Some (Inr (2, 2))"
  by code_simp

section \<open>The query on a map without summits\<close>

lemma iter_summits_empty: "summits s = {} \<Longrightarrow> iter_summits s = []"
  by (simp add: iter_summits_def)

text \<open>
  C3, as the program behaves: on a map whose summit set is empty, \<open>longest_paths\<close>
  without a target length raises \<open>ValueError\<close> (the \<open>max\<close> of an empty set); with a
  target length it returns the empty list.
\<close>

theorem longest_paths_no_summits:
  assumes "summits s = {}"
  shows "SkiMap_longest_paths s None = Inl ValueError \<and>
         SkiMap_longest_paths s (Some p) = Inr []"
  using iter_summits_empty [OF assms]
  by (simp add: SkiMap_longest_paths_def max_key_def)

theorem longest_paths_no_summits_witness:
  "summits two_nodes = {} \<and>
   SkiMap_longest_paths two_nodes None = Inl ValueError \<and>
   SkiMap_longest_paths two_nodes (Some 0) = Inr []"
proof -
  have a: "summits two_nodes = {}" by (simp add: two_nodes_def)
  from longest_paths_no_summits [OF a, of 0] a show ?thesis by simp
qed

text \<open>
  C3, as the claim states it, fails: the summit set of \<open>two_nodes\<close> is empty and the
  query without a target length does not return the empty list.
\<close>

theorem longest_paths_no_summits_counterexample:
  "summits two_nodes = {} \<and> SkiMap_longest_paths two_nodes None \<noteq> Inr []"
  by (simp add: two_nodes_def SkiMap_longest_paths_def max_key_def iter_summits_def)

section \<open>The flat grid\<close>

text \<open>
  C4, as the program behaves: on the grid \<open>[[5, 5], [5, 5]]\<close> the scan calls
  \<open>_go_down\<close> not once (the log is empty), no node has an edge, the summit set is
  empty, and \<open>find_longest_path\<close> raises \<open>ValueError\<close> instead of reporting a pair.
\<close>

theorem flat_grid_scenario:
  "build_nodes_log flat_grid =
     Some (Inr \<lparr>b_map =
         \<lparr>width = 2, height = 2, rows = [[5, 5], [5, 5]],
          nodes = [Some (Node 0 0 0 5), Some (Node 1 1 0 5),
                   Some (Node 2 0 1 5), Some (Node 3 1 1 5)],
          summits = {}\<rparr>,
       b_i = 4, b_row_nodes = [Some 2, Some 3], b_prev_row = Some [5, 5],
       b_prev_row_nodes = Some [Some 2, Some 3], b_log = []\<rparr>)
   \<and> find_longest_path flat_grid = Some (Inl ValueError)"
  by code_simp

text \<open>C4, as the claim states it, fails: no pair (0, 0) is reported for the flat grid.\<close>

theorem flat_grid_counterexample:
  "find_longest_path flat_grid \<noteq> Some (Inr (0, 0))"
  by code_simp

section \<open>Termination of the propagation\<close>

lemma ascending_iff:
  "ascending ns \<longleftrightarrow>
     (\<forall>a b. valid ns a \<longrightarrow> b \<in> set (go_up (nd ns a)) \<longrightarrow>
        valid ns b \<and> elevation (nd ns a) < elevation (nd ns b))"
proof
  assume a: "ascending ns"
  show "\<forall>a b. valid ns a \<longrightarrow> b \<in> set (go_up (nd ns a)) \<longrightarrow>
        valid ns b \<and> elevation (nd ns a) < elevation (nd ns b)"
  proof (intro allI impI)
    fix x b assume v: "valid ns x" and b: "b \<in> set (go_up (nd ns x))"
    from v obtain n where n: "x < length ns" "ns ! x = Some n"
      by (auto simp: valid_def)
    from a n(1) have "case ns ! x of None \<Rightarrow> True
      | Some n \<Rightarrow> (\<forall>b\<in>set (go_up n). valid ns b \<and> elevation n < elevation (nd ns b))"
      unfolding ascending_def by blast
    with n(2) have "\<forall>b\<in>set (go_up n). valid ns b \<and> elevation n < elevation (nd ns b)"
      by simp
    moreover from n(2) have "nd ns x = n" by (simp add: nd_def)
    ultimately show "valid ns b \<and> elevation (nd ns x) < elevation (nd ns b)"
      using b by simp
  qed
next
  assume r: "\<forall>a b. valid ns a \<longrightarrow> b \<in> set (go_up (nd ns a)) \<longrightarrow>
        valid ns b \<and> elevation (nd ns a) < elevation (nd ns b)"
  show "ascending ns"
    unfolding ascending_def
  proof (intro allI impI)
    fix x assume x: "x < length ns"
    show "case ns ! x of None \<Rightarrow> True
      | Some n \<Rightarrow> (\<forall>b\<in>set (go_up n). valid ns b \<and> elevation n < elevation (nd ns b))"
    proof (cases "ns ! x")
      case None
      then show ?thesis by simp
    next
      case (Some n)
      with x have "valid ns x" "nd ns x = n" by (simp_all add: valid_def nd_def)
      with r Some show ?thesis by auto
    qed
  qed
qed

lemma ascending_grow:
  assumes g: "paths_grow ns ns'" and a: "ascending ns"
  shows "ascending ns'"
proof -
  note f = paths_grow_fields(1,3,5) [OF g]
  from a show ?thesis unfolding ascending_iff f .
qed

lemma elevation_bound: "\<exists>M. \<forall>k. valid ns k \<longrightarrow> elevation (nd ns k) \<le> M"
proof -
  let ?S = "(\<lambda>k. elevation (nd ns k)) ` {..<length ns}"
  have "\<forall>k. valid ns k \<longrightarrow> elevation (nd ns k) \<le> Max ?S"
    by (auto simp: valid_def intro!: Max_ge)
  then show ?thesis ..
qed

lemma while_top_nodes_terminates_aux:
  assumes "ascending ns"
    and "\<forall>t\<in>set ts. valid ns t \<and> E \<le> elevation (nd ns t)"
    and "\<forall>k. valid ns k \<longrightarrow> elevation (nd ns k) \<le> M"
    and "nat (M + 1 - E) \<le> n"
  shows "\<exists>r. while_top_nodes ns ts new level = Some r"
  using assms
proof (induction n arbitrary: ns ts level E)
  case 0
  have "ts = []"
  proof (cases ts)
    case (Cons t ts')
    with 0(2) have "valid ns t" "E \<le> elevation (nd ns t)" by simp_all
    with 0(3) have "E \<le> M" by fastforce
    with 0(4) show ?thesis by simp
  qed simp
  then show ?case by (simp add: while_top_nodes.simps)
next
  case (Suc n)
  show ?case
  proof (cases "ts = []")
    case True
    then show ?thesis by (simp add: while_top_nodes.simps)
  next
    case False
    let ?f = "for_top_nodes ts (new + level) ns []"
    have g: "paths_grow ns (fst ?f)" by (rule for_top_nodes_grow)
    have nx: "snd ?f = concat (map (\<lambda>a. go_up (nd ns a)) ts)"
      by (simp add: for_top_nodes_snd)
    have a: "ascending (fst ?f)" using g Suc.prems(1) by (rule ascending_grow)
    have b: "\<forall>t\<in>set (snd ?f). valid (fst ?f) t \<and> E + 1 \<le> elevation (nd (fst ?f) t)"
    proof
      fix t assume "t \<in> set (snd ?f)"
      then obtain p where p: "p \<in> set ts" "t \<in> set (go_up (nd ns p))"
        by (auto simp: nx)
      from p(1) Suc.prems(2) have vp: "valid ns p" "E \<le> elevation (nd ns p)" by simp_all
      from Suc.prems(1) vp(1) p(2)
      have "valid ns t \<and> elevation (nd ns p) < elevation (nd ns t)"
        unfolding ascending_iff by blast
      with vp(2) show "valid (fst ?f) t \<and> E + 1 \<le> elevation (nd (fst ?f) t)"
        by (simp add: paths_grow_fields [OF g])
    qed
    have c: "\<forall>k. valid (fst ?f) k \<longrightarrow> elevation (nd (fst ?f) k) \<le> M"
      using Suc.prems(3) by (simp add: paths_grow_fields [OF g])
    have d: "nat (M + 1 - (E + 1)) \<le> n" using Suc.prems(4) by simp
    from Suc.IH [OF a b c d, of "level + 1"]
    obtain r where "while_top_nodes (fst ?f) (snd ?f) new (level + 1) = Some r" ..
    with False show ?thesis
      by (subst while_top_nodes.simps) (simp add: case_prod_unfold)
  qed
qed

lemma while_top_nodes_terminates:
  assumes "ascending ns" and "\<forall>t\<in>set ts. valid ns t"
  shows "\<exists>r. while_top_nodes ns ts new level = Some r"
proof (cases "ts = []")
  case True
  then show ?thesis by (simp add: while_top_nodes.simps)
next
  case False
  obtain M where M: "\<forall>k. valid ns k \<longrightarrow> elevation (nd ns k) \<le> M"
    using elevation_bound by blast
  let ?E = "Min ((\<lambda>t. elevation (nd ns t)) ` set ts)"
  have "\<forall>t\<in>set ts. valid ns t \<and> ?E \<le> elevation (nd ns t)"
    using assms(2) by simp
  from while_top_nodes_terminates_aux [OF assms(1) this M order_refl]
  show ?thesis .
qed

lemma ascending_append_edge:
  assumes "ascending ns" "valid ns u" "valid ns l"
    and "elevation (nd ns l) < elevation (nd ns u)"
  shows "ascending (append_edge u l ns)"
  using assms unfolding ascending_iff
  by (auto simp: append_edge_fields)

lemma update_paths_terminates:
  assumes "ascending ns" "valid ns u"
  shows "\<exists>r. update_paths u l ns = Some r"
proof (cases "longest_path (nd ns l) + 1 > longest_path (nd ns u)")
  case True
  let ?ns' = "upd_node u (\<lambda>n. n\<lparr>longest_path := longest_path (nd ns l) + 1\<rparr>) ns"
  have g: "paths_grow ns ?ns'" using True by (auto simp: paths_grow_def nd_upd_node)
  have a: "ascending ?ns'" using g assms(1) by (rule ascending_grow)
  have "\<forall>t\<in>set (go_up (nd ?ns' u)). valid ?ns' t"
    using assms unfolding ascending_iff by auto
  from while_top_nodes_terminates [OF a this] True show ?thesis
    by (simp add: update_paths_def Let_def)
next
  case False
  then show ?thesis by (simp add: update_paths_def)
qed

text \<open>
  C7: when elevation strictly increases along every \<open>go_up\<close> reference of the map and
  the new edge goes from a higher node to a lower one, the propagation of one edge
  insertion leaves its \<open>while\<close> loop: \<open>_go_down\<close> returns.
\<close>

theorem go_down_terminates:
  assumes "ascending (nodes s)" 
    and "valid (nodes s) u" and "valid (nodes s) l"
    and "elevation (nd (nodes s) l) < elevation (nd (nodes s) u)"
  shows "\<exists>s'. SkiMap_go_down s u l = Some s'"
proof -
  have "ascending (append_edge u l (nodes s))"
    using assms by (rule ascending_append_edge)
  moreover have "valid (append_edge u l (nodes s)) u" using assms(2) by simp
  ultimately obtain r where "update_paths u l (append_edge u l (nodes s)) = Some r"
    using update_paths_terminates by blast
  then show ?thesis by (simp add: SkiMap_go_down_def)
qed
theorem go_down_terminates_witness:
  "ascending (nodes three_nodes) \<and>
   valid (nodes three_nodes) 1 \<and> valid (nodes three_nodes) 2 \<and>
   elevation (nd (nodes three_nodes) 2) < elevation (nd (nodes three_nodes) 1) \<and>
   go_up (nd (nodes three_nodes) 1) = [0] \<and>
   (\<exists>s'. SkiMap_go_down three_nodes 1 2 = Some s') \<and>
   map_option (\<lambda>s'. map (\<lambda>k. longest_path (nd (nodes s') k)) [0, 1, 2])
     (SkiMap_go_down three_nodes 1 2) = Some [2, 1, 0]"
proof -
  have a: "ascending (nodes three_nodes)" by code_simp
  have b: "valid (nodes three_nodes) 1" by (simp add: valid_def three_nodes_def)
  have c: "valid (nodes three_nodes) 2" by (simp add: valid_def three_nodes_def)
  have d: "elevation (nd (nodes three_nodes) 2) < elevation (nd (nodes three_nodes) 1)"
    by (simp add: nd_def three_nodes_def Node_def)
  have e: "go_up (nd (nodes three_nodes) 1) = [0]"
    by (simp add: nd_def three_nodes_def Node_def)
  have f: "map_option (\<lambda>s'. map (\<lambda>k. longest_path (nd (nodes s') k)) [0, 1, 2])
     (SkiMap_go_down three_nodes 1 2) = Some [2, 1, 0]" by code_simp
  from go_down_terminates [OF a b c d] a b c d e f show ?thesis by simp
qed

section \<open>What an edge insertion leaves unchanged\<close>

lemma up_rel_grow: "paths_grow ns ns' \<Longrightarrow> up_rel ns' = up_rel ns"
  by (simp add: up_rel_def paths_grow_fields)

lemma up_rel_next:
  "t' \<in> set (snd (for_top_nodes ts v ns [])) \<longleftrightarrow> (\<exists>t\<in>set ts. (t, t') \<in> up_rel ns)"
  by (auto simp: for_top_nodes_snd up_rel_def)

lemma while_top_nodes_frame:
  assumes "while_top_nodes ns ts new level = Some r"
    and "\<forall>t\<in>set ts. (t, k) \<notin> (up_rel ns)\<^sup>*"
  shows "nd r k = nd ns k"
  using assms
proof (induction ns ts new level r rule: while_top_nodes.raw_induct [rotated 1, consumes 1])
  case (1 w ns ts new level r)
  show ?case
  proof (cases "ts = []")
    case True
    with 1(2) show ?thesis by simp
  next
    case False
    let ?f = "for_top_nodes ts (new + level) ns []"
    have g: "paths_grow ns (fst ?f)" by (rule for_top_nodes_grow)
    from False 1(2) have w: "w (fst ?f) (snd ?f) new (level + 1) = Some r"
      by (simp add: case_prod_unfold)
    have "\<forall>t'\<in>set (snd ?f). (t', k) \<notin> (up_rel (fst ?f))\<^sup>*"
    proof
      fix t' assume "t' \<in> set (snd ?f)"
      then obtain t where t: "t \<in> set ts" "(t, t') \<in> up_rel ns"
        unfolding up_rel_next by blast
      from 1(3) t(1) have "(t, k) \<notin> (up_rel ns)\<^sup>*" by blast
      with t(2) have "(t', k) \<notin> (up_rel ns)\<^sup>*"
        by (meson converse_rtrancl_into_rtrancl)
      then show "(t', k) \<notin> (up_rel (fst ?f))\<^sup>*" by (simp add: up_rel_grow [OF g])
    qed
    with 1(1) [OF w] have "nd r k = nd (fst ?f) k" by blast
    moreover have "k \<notin> set ts" using 1(3) by blast
    ultimately show ?thesis by (simp add: for_top_nodes_nd)
  qed
qed

lemma cycle_step:
  assumes "(t, c) \<in> R\<^sup>*" and "(c, c) \<in> R\<^sup>+"
  shows "\<exists>t'. (t, t') \<in> R \<and> (t', c) \<in> R\<^sup>*"
proof (cases "t = c")
  case True
  with assms(2) show ?thesis by (auto dest: tranclD)
next
  case False
  with assms(1) show ?thesis by (auto elim: converse_rtranclE)
qed

lemma while_top_nodes_no_cycle:
  assumes "while_top_nodes ns ts new level = Some r"
  shows "\<forall>t\<in>set ts. \<forall>c. (t, c) \<in> (up_rel ns)\<^sup>* \<longrightarrow> (c, c) \<notin> (up_rel ns)\<^sup>+"
  using assms
proof (induction ns ts new level r rule: while_top_nodes.raw_induct [rotated 1, consumes 1])
  case (1 w ns ts new level r)
  show ?case
  proof (cases "ts = []")
    case True
    then show ?thesis by simp
  next
    case False
    let ?f = "for_top_nodes ts (new + level) ns []"
    have g: "paths_grow ns (fst ?f)" by (rule for_top_nodes_grow)
    from False 1(2) have w: "w (fst ?f) (snd ?f) new (level + 1) = Some r"
      by (simp add: case_prod_unfold)
    note ih = 1(1) [OF w, unfolded up_rel_grow [OF g]]
    show ?thesis
    proof (intro ballI allI impI)
      fix t c assume t: "t \<in> set ts" and tc: "(t, c) \<in> (up_rel ns)\<^sup>*"
      show "(c, c) \<notin> (up_rel ns)\<^sup>+"
      proof
        assume cc: "(c, c) \<in> (up_rel ns)\<^sup>+"
        from cycle_step [OF tc cc] obtain t' where
          t': "(t, t') \<in> up_rel ns" "(t', c) \<in> (up_rel ns)\<^sup>*" by blast
        from t t'(1) have "t' \<in> set (snd ?f)" unfolding up_rel_next by blast
        with ih t'(2) cc show False by blast
      qed
    qed
  qed
qed

lemma up_rel_append_edge:
  "up_rel (append_edge u l ns) \<subseteq> insert (l, u) (up_rel ns)"
  by (auto simp: up_rel_def append_edge_fields split: if_splits)

lemma up_rel_append_edge_new:
  "valid ns l \<Longrightarrow> (l, u) \<in> up_rel (append_edge u l ns)"
  by (simp add: up_rel_def append_edge_fields)

lemma reach_append_edge:
  assumes "(a, k) \<in> (up_rel (append_edge u l ns))\<^sup>*"
  shows "(a, k) \<in> (up_rel ns)\<^sup>* \<or> (u, k) \<in> (up_rel ns)\<^sup>*"
  using assms
proof (induction rule: rtrancl_induct)
  case base
  show ?case by simp
next
  case (step y z)
  from step(2) up_rel_append_edge have "(y, z) = (l, u) \<or> (y, z) \<in> up_rel ns" by blast
  then show ?case
  proof
    assume "(y, z) = (l, u)"
    then show ?thesis by simp
  next
    assume "(y, z) \<in> up_rel ns"
    with step(3) show ?thesis by (meson rtrancl.rtrancl_into_rtrancl)
  qed
qed

lemma update_paths_frame:
  assumes "update_paths u l ns = Some r" and "k \<noteq> u" and "(u, k) \<notin> (up_rel ns)\<^sup>+"
  shows "nd r k = nd ns k"
proof (cases "longest_path (nd ns l) + 1 > longest_path (nd ns u)")
  case True
  let ?ns' = "upd_node u (\<lambda>n. n\<lparr>longest_path := longest_path (nd ns l) + 1\<rparr>) ns"
  from True assms(1)
  have w: "while_top_nodes ?ns' (go_up (nd ?ns' u)) (longest_path (nd ns l) + 1) 1 = Some r"
    by (simp add: update_paths_def Let_def)
  have g: "paths_grow ns ?ns'" using True by (auto simp: paths_grow_def nd_upd_node)
  have "\<forall>t\<in>set (go_up (nd ?ns' u)). (t, k) \<notin> (up_rel ?ns')\<^sup>*"
  proof
    fix t assume "t \<in> set (go_up (nd ?ns' u))"
    then have "(u, t) \<in> up_rel ns" by (simp add: up_rel_def)
    with assms(3) have "(t, k) \<notin> (up_rel ns)\<^sup>*"
      by (meson rtrancl_into_trancl2)
    then show "(t, k) \<notin> (up_rel ?ns')\<^sup>*" by (simp add: up_rel_grow [OF g])
  qed
  from while_top_nodes_frame [OF w this] assms(2) show ?thesis
    by (simp add: nd_upd_node)
next
  case False
  with assms(1) show ?thesis by (simp add: update_paths_def)
qed

lemma update_paths_lower:
  assumes "update_paths u l ns = Some r" and "(l, u) \<in> up_rel ns"
  shows "nd r l = nd ns l"
proof (cases "longest_path (nd ns l) + 1 > longest_path (nd ns u)")
  case True
  let ?ns' = "upd_node u (\<lambda>n. n\<lparr>longest_path := longest_path (nd ns l) + 1\<rparr>) ns"
  from True assms(1)
  have w: "while_top_nodes ?ns' (go_up (nd ?ns' u)) (longest_path (nd ns l) + 1) 1 = Some r"
    by (simp add: update_paths_def Let_def)
  have g: "paths_grow ns ?ns'" using True by (auto simp: paths_grow_def nd_upd_node)
  note nc = while_top_nodes_no_cycle [OF w, unfolded up_rel_grow [OF g]]
  have ts: "\<And>t. (u, t) \<in> up_rel ns \<Longrightarrow> t \<in> set (go_up (nd ?ns' u))"
    by (simp add: up_rel_def)
  have "l \<noteq> u"
  proof
    assume "l = u"
    with assms(2) have uu: "(u, u) \<in> up_rel ns" by simp
    from nc ts [OF uu] have "(u, u) \<notin> (up_rel ns)\<^sup>+" by blast
    with uu show False by blast
  qed
  moreover have "(u, l) \<notin> (up_rel ns)\<^sup>+"
  proof
    assume ul: "(u, l) \<in> (up_rel ns)\<^sup>+"
    then obtain t where t: "(u, t) \<in> up_rel ns" "(t, l) \<in> (up_rel ns)\<^sup>*"
      by (auto dest: tranclD)
    from ul assms(2) have "(l, l) \<in> (up_rel ns)\<^sup>+" by (meson trancl_into_trancl2)
    with nc ts [OF t(1)] t(2) show False by blast
  qed
  ultimately show ?thesis using update_paths_frame [OF assms(1)] by blast
next
  case False
  with assms(1) show ?thesis by (simp add: update_paths_def)
qed

lemma update_summits_bounds:
  "update_summits u l ns sm \<subseteq> insert (node_i (nd ns u)) sm \<and>
   sm - {node_i (nd ns l)} \<subseteq> update_summits u l ns sm"
  by (auto simp: update_summits_def Let_def)

lemma go_downE:
  assumes "SkiMap_go_down s u l = Some s'"
  obtains r where "update_paths u l (append_edge u l (nodes s)) = Some r"
    and "s' = s\<lparr>nodes := r, summits := update_summits u l r (summits s)\<rparr>"
  using assms by (auto simp: SkiMap_go_down_def split: option.splits)

text \<open>
  C10: a call of \<open>_go_down(upper, lower)\<close> that returns leaves the \<open>longest_path\<close> of
  \<open>lower\<close> as it was, and that of every node which is neither \<open>upper\<close> nor reachable
  from \<open>upper\<close> along \<open>go_up\<close> references; the \<open>go_down\<close> list of \<open>upper\<close> gains
  \<open>lower\<close> at its end, the \<open>go_up\<close> list of \<open>lower\<close> gains \<open>upper\<close>, every other list is
  as before; the summit set loses at most the index of \<open>lower\<close> and gains at most the
  index of \<open>upper\<close>.
\<close>

theorem go_down_frame:
  assumes "SkiMap_go_down s u l = Some s'"
    and "valid (nodes s) u" and "valid (nodes s) l"
  shows "longest_path (nd (nodes s') l) = longest_path (nd (nodes s) l) \<and>
    (\<forall>k. k \<noteq> u \<longrightarrow> (u, k) \<notin> (up_rel (nodes s))\<^sup>+ \<longrightarrow>
       longest_path (nd (nodes s') k) = longest_path (nd (nodes s) k)) \<and>
    (\<forall>k. go_down (nd (nodes s') k) =
       (if k = u then go_down (nd (nodes s) k) @ [l] else go_down (nd (nodes s) k))) \<and>
    (\<forall>k. go_up (nd (nodes s') k) =
       (if k = l then go_up (nd (nodes s) k) @ [u] else go_up (nd (nodes s) k))) \<and>
    summits s' \<subseteq> insert (node_i (nd (nodes s) u)) (summits s) \<and>
    summits s - {node_i (nd (nodes s) l)} \<subseteq> summits s'"
proof -
  let ?ns1 = "append_edge u l (nodes s)"
  from assms(1) obtain r where r: "update_paths u l ?ns1 = Some r"
    and s': "s' = s\<lparr>nodes := r, summits := update_summits u l r (summits s)\<rparr>"
    by (rule go_downE)
  have g: "paths_grow ?ns1 r" using r by (rule update_paths_grow)
  have "nd r l = nd ?ns1 l"
    using r up_rel_append_edge_new [OF assms(3)] by (rule update_paths_lower)
  then have a: "longest_path (nd (nodes s') l) = longest_path (nd (nodes s) l)"
    by (simp add: s' append_edge_fields)
  have b: "\<forall>k. k \<noteq> u \<longrightarrow> (u, k) \<notin> (up_rel (nodes s))\<^sup>+ \<longrightarrow>
       longest_path (nd (nodes s') k) = longest_path (nd (nodes s) k)"
  proof (intro allI impI)
    fix k assume k: "k \<noteq> u" "(u, k) \<notin> (up_rel (nodes s))\<^sup>+"
    have "(u, k) \<notin> (up_rel ?ns1)\<^sup>+"
    proof
      assume "(u, k) \<in> (up_rel ?ns1)\<^sup>+"
      then have "(u, k) \<in> (up_rel ?ns1)\<^sup>*" by simp
      then have "(u, k) \<in> (up_rel (nodes s))\<^sup>*" using reach_append_edge by blast
      with k show False by (auto dest: rtranclD)
    qed
    from update_paths_frame [OF r k(1) this]
    show "longest_path (nd (nodes s') k) = longest_path (nd (nodes s) k)"
      by (simp add: s' append_edge_fields)
  qed
  have c: "\<forall>k. go_down (nd (nodes s') k) =
       (if k = u then go_down (nd (nodes s) k) @ [l] else go_down (nd (nodes s) k))"
    using assms(2) by (simp add: s' paths_grow_fields [OF g] append_edge_fields)
  have d: "\<forall>k. go_up (nd (nodes s') k) =
       (if k = l then go_up (nd (nodes s) k) @ [u] else go_up (nd (nodes s) k))"
    using assms(3) by (simp add: s' paths_grow_fields [OF g] append_edge_fields)
  have i: "node_i (nd r u) = node_i (nd (nodes s) u)" "node_i (nd r l) = node_i (nd (nodes s) l)"
    by (simp_all add: paths_grow_fields [OF g] append_edge_fields)
  have e: "summits s' \<subseteq> insert (node_i (nd (nodes s) u)) (summits s) \<and>
    summits s - {node_i (nd (nodes s) l)} \<subseteq> summits s'"
    using update_summits_bounds [of u l r "summits s"] by (simp add: s' i)
  from a b c d e show ?thesis by blast
qed

theorem go_down_frame_witness:
  "SkiMap_go_down two_nodes 0 1 = Some two_nodes_linked \<and>
   valid (nodes two_nodes) 0 \<and> valid (nodes two_nodes) 1 \<and>
   longest_path (nd (nodes two_nodes_linked) 1) = longest_path (nd (nodes two_nodes) 1) \<and>
   go_down (nd (nodes two_nodes_linked) 0) = go_down (nd (nodes two_nodes) 0) @ [1] \<and>
   go_up (nd (nodes two_nodes_linked) 1) = go_up (nd (nodes two_nodes) 1) @ [0] \<and>
   summits two_nodes_linked \<subseteq> insert (node_i (nd (nodes two_nodes) 0)) (summits two_nodes)"
proof -
  have a: "SkiMap_go_down two_nodes 0 1 = Some two_nodes_linked" by code_simp
  have b: "valid (nodes two_nodes) 0" by (simp add: valid_def two_nodes_def)
  have c: "valid (nodes two_nodes) 1" by (simp add: valid_def two_nodes_def)
  from go_down_frame [OF a b c] a b c show ?thesis by simp
qed

section \<open>The invariant of longest_path across an edge insertion\<close>

lemma path_value_iff:
  fixes f :: "nat \<Rightarrow> int"
  shows "p = (if cs = [] then 0 else 1 + Max (f ` set cs)) \<longleftrightarrow>
    (\<forall>c\<in>set cs. f c + 1 \<le> p) \<and>
    (if cs = [] then p = 0 else \<exists>c\<in>set cs. p \<le> f c + 1)"
proof (cases "cs = []")
  case True
  then show ?thesis by simp
next
  case False
  then have ne: "f ` set cs \<noteq> {}" and fin: "finite (f ` set cs)" by simp_all
  have "p = 1 + Max (f ` set cs) \<longleftrightarrow> Max (f ` set cs) = p - 1" by auto
  also have "\<dots> \<longleftrightarrow> p - 1 \<in> f ` set cs \<and> (\<forall>x\<in>f ` set cs. x \<le> p - 1)"
    using Max_eq_iff [OF fin ne] .
  also have "\<dots> \<longleftrightarrow> (\<forall>c\<in>set cs. f c + 1 \<le> p) \<and> (\<exists>c\<in>set cs. p \<le> f c + 1)"
  proof (intro iffI conjI)
    assume h: "p - 1 \<in> f ` set cs \<and> (\<forall>x\<in>f ` set cs. x \<le> p - 1)"
    then show "\<forall>c\<in>set cs. f c + 1 \<le> p" by auto
    from h obtain c where "c \<in> set cs" "p - 1 = f c" by auto
    then show "\<exists>c\<in>set cs. p \<le> f c + 1" by (intro bexI [of _ c]) simp_all
  next
    assume h: "(\<forall>c\<in>set cs. f c + 1 \<le> p) \<and> (\<exists>c\<in>set cs. p \<le> f c + 1)"
    then obtain c where c: "c \<in> set cs" "p \<le> f c + 1" by blast
    with h have "f c + 1 \<le> p" by blast
    with c have "p - 1 = f c" by simp
    with c(1) show "p - 1 \<in> f ` set cs" by blast
    from h show "\<forall>x\<in>f ` set cs. x \<le> p - 1" by auto
  qed
  finally show ?thesis using False by simp
qed

lemma path_inv_iff:
  "path_inv ns \<longleftrightarrow> (\<forall>a. valid ns a \<longrightarrow> path_ge ns a \<and> path_le ns a)"
proof -
  have "path_inv ns \<longleftrightarrow>
    (\<forall>a. valid ns a \<longrightarrow> longest_path (nd ns a) =
       (if go_down (nd ns a) = [] then 0
        else 1 + Max ((\<lambda>c. longest_path (nd ns c)) ` set (go_down (nd ns a)))))"
    (is "_ \<longleftrightarrow> ?R")
  proof
    assume p: "path_inv ns"
    show ?R
    proof (intro allI impI)
      fix a assume "valid ns a"
      then obtain n where n: "a < length ns" "ns ! a = Some n" by (auto simp: valid_def)
      from p n(1) have "case ns ! a of None \<Rightarrow> True
        | Some n \<Rightarrow> longest_path n = (if go_down n = [] then 0
             else 1 + Max ((\<lambda>c. longest_path (nd ns c)) ` set (go_down n)))"
        unfolding path_inv_def by blast
      with n(2) show "longest_path (nd ns a) =
       (if go_down (nd ns a) = [] then 0
        else 1 + Max ((\<lambda>c. longest_path (nd ns c)) ` set (go_down (nd ns a))))"
        by (simp add: nd_def)
    qed
  next
    assume r: ?R
    show "path_inv ns"
      unfolding path_inv_def
    proof (intro allI impI)
      fix a assume a: "a < length ns"
      show "case ns ! a of None \<Rightarrow> True
        | Some n \<Rightarrow> longest_path n = (if go_down n = [] then 0
             else 1 + Max ((\<lambda>c. longest_path (nd ns c)) ` set (go_down n)))"
      proof (cases "ns ! a")
        case None
        then show ?thesis by simp
      next
        case (Some n)
        with a have "valid ns a" "nd ns a = n" by (simp_all add: valid_def nd_def)
        with r [rule_format, of a] Some show ?thesis by simp
      qed
    qed
  qed
  also have "\<dots> \<longleftrightarrow> (\<forall>a. valid ns a \<longrightarrow> path_ge ns a \<and> path_le ns a)"
    unfolding path_ge_def path_le_def
    using path_value_iff [of _ _ "\<lambda>c. longest_path (nd ns c)"] by simp
  finally show ?thesis .
qed

lemma mirrored_grow:
  assumes g: "paths_grow ns ns'" and m: "mirrored ns"
  shows "mirrored ns'"
proof -
  note f = paths_grow_fields(1,2,5) [OF g]
  from m show ?thesis unfolding mirrored_def f .
qed

lemma mirroredD:
  assumes "mirrored ns" "valid ns a"
  shows "b \<in> set (go_up (nd ns a)) \<Longrightarrow> a \<in> set (go_down (nd ns b))"
    and "b \<in> set (go_down (nd ns a)) \<Longrightarrow> valid ns b"
    and "b \<in> set (go_down (nd ns a)) \<Longrightarrow> a \<in> set (go_up (nd ns b))"
  using assms unfolding mirrored_def by blast+

lemma ascendingD:
  assumes "ascending ns" "valid ns a" "b \<in> set (go_up (nd ns a))"
  shows "valid ns b" "elevation (nd ns a) < elevation (nd ns b)"
  using assms unfolding ascending_iff by blast+

lemma descending:
  assumes "mirrored ns" "ascending ns" "valid ns a" "c \<in> set (go_down (nd ns a))"
  shows "valid ns c" "elevation (nd ns c) < elevation (nd ns a)"
proof -
  show c: "valid ns c" using mirroredD(2) [OF assms(1,3,4)] .
  have "a \<in> set (go_up (nd ns c))" using mirroredD(3) [OF assms(1,3,4)] .
  from ascendingD(2) [OF assms(2) c this] show "elevation (nd ns c) < elevation (nd ns a)" .
qed

lemma loop_inv_step:
  assumes L: "loop_inv ns ts v" and M: "mirrored ns" and A: "ascending ns"
  shows "loop_inv (fst (for_top_nodes ts (v + 1) ns [])) (snd (for_top_nodes ts (v + 1) ns []))
           (v + 1)"
proof -
  let ?ns' = "fst (for_top_nodes ts (v + 1) ns [])"
  let ?nx = "snd (for_top_nodes ts (v + 1) ns [])"
  let ?lp = "\<lambda>x. longest_path (nd ns x)"
  let ?lp' = "\<lambda>x. longest_path (nd ?ns' x)"
  have g: "paths_grow ns ?ns'" by (rule for_top_nodes_grow)
  note f = paths_grow_fields [OF g]
  have tsv: "\<And>t. t \<in> set ts \<Longrightarrow> valid ns t" using L unfolding loop_inv_def by blast
  have lp': "\<And>x. ?lp' x = (if x \<in> set ts then max (?lp x) (v + 1) else ?lp x)"
    using tsv by (simp add: for_top_nodes_nd)
  have mono: "\<And>x. ?lp x \<le> ?lp' x" by (simp add: lp')
  have ts_ge: "\<And>t. t \<in> set ts \<Longrightarrow> v + 1 \<le> ?lp' t" by (simp add: lp')
  have nx: "\<And>t'. t' \<in> set ?nx \<longleftrightarrow> (\<exists>t\<in>set ts. t' \<in> set (go_up (nd ns t)))"
    by (simp add: for_top_nodes_snd)
  have child: "\<And>t. t \<in> set ts \<Longrightarrow> \<exists>c\<in>set (go_down (nd ns t)). v \<le> ?lp c"
    using L unfolding loop_inv_def by blast
  have p1: "path_le ?ns' a" if va: "valid ns a" for a
  proof -
    from L va have pl: "path_le ns a" unfolding loop_inv_def by blast
    show ?thesis
    proof (cases "go_down (nd ns a) = []")
      case True
      with pl have z: "?lp a = 0" by (simp add: path_le_def)
      from True child have "a \<notin> set ts" by fastforce
      with z True show ?thesis by (simp add: path_le_def f lp')
    next
      case False
      with pl obtain c where c: "c \<in> set (go_down (nd ns a))" "?lp a \<le> ?lp c + 1"
        by (auto simp: path_le_def)
      show ?thesis
      proof (cases "a \<in> set ts \<and> ?lp a < v + 1")
        case True
        with child obtain c2 where c2: "c2 \<in> set (go_down (nd ns a))" "v \<le> ?lp c2" by blast
        from True have "?lp' a = v + 1" by (simp add: lp')
        with c2(2) mono [of c2] have "?lp' a \<le> ?lp' c2 + 1" by linarith
        with c2(1) False show ?thesis unfolding path_le_def f by auto
      next
        case False2: False
        then have "?lp' a = ?lp a" by (auto simp: lp')
        with c(2) mono [of c] have "?lp' a \<le> ?lp' c + 1" by linarith
        with c(1) False show ?thesis unfolding path_le_def f by auto
      qed
    qed
  qed
  have p2: "?lp' c + 1 \<le> ?lp' a \<or> a \<in> set ?nx \<and> ?lp' c \<le> v + 1"
    if va: "valid ns a" and c: "c \<in> set (go_down (nd ns a))" for a c
  proof -
    from L va c have d: "?lp c + 1 \<le> ?lp a \<or> a \<in> set ts \<and> ?lp c \<le> v"
      unfolding loop_inv_def by blast
    have up: "a \<in> set (go_up (nd ns c))" using mirroredD(3) [OF M va c] .
    show ?thesis
    proof (cases "c \<in> set ts")
      case True
      with up have anx: "a \<in> set ?nx" unfolding nx by blast
      show ?thesis
      proof (cases "?lp c \<le> v + 1")
        case True
        with \<open>c \<in> set ts\<close> have "?lp' c = v + 1" by (simp add: lp')
        with anx show ?thesis by simp
      next
        case False
        with \<open>c \<in> set ts\<close> have e: "?lp' c = ?lp c" by (simp add: lp')
        from False d have "?lp c + 1 \<le> ?lp a" by linarith
        with e mono [of a] show ?thesis by linarith
      qed
    next
      case False
      then have e: "?lp' c = ?lp c" by (simp add: lp')
      from d show ?thesis
      proof
        assume "?lp c + 1 \<le> ?lp a"
        with e mono [of a] show ?thesis by linarith
      next
        assume "a \<in> set ts \<and> ?lp c \<le> v"
        with ts_ge [of a] e show ?thesis by linarith
      qed
    qed
  qed
  have p3: "valid ns t' \<and> (\<exists>c\<in>set (go_down (nd ns t')). v + 1 \<le> ?lp' c)"
    if "t' \<in> set ?nx" for t'
  proof -
    from that obtain t where t: "t \<in> set ts" "t' \<in> set (go_up (nd ns t))"
      unfolding nx by blast
    have vt: "valid ns t" using tsv t(1) .
    have "valid ns t'" using ascendingD(1) [OF A vt t(2)] .
    moreover have "t \<in> set (go_down (nd ns t'))" using mirroredD(1) [OF M vt t(2)] .
    ultimately show ?thesis using ts_ge [OF t(1)] by blast
  qed
  show ?thesis
    unfolding loop_inv_def f using p1 p2 p3 by blast
qed

lemma loop_inv_done:
  assumes "loop_inv ns [] v"
  shows "path_inv ns"
  using assms unfolding loop_inv_def path_inv_iff path_ge_def by simp

lemma while_top_nodes_path_inv:
  assumes "while_top_nodes ns ts new level = Some r"
    and "loop_inv ns ts (new + level - 1)" and "mirrored ns" and "ascending ns"
  shows "path_inv r"
  using assms
proof (induction ns ts new level r rule: while_top_nodes.raw_induct [rotated 1, consumes 1])
  case (1 w ns ts new level r)
  show ?case
  proof (cases "ts = []")
    case True
    with 1(2) have "r = ns" by simp
    with 1(3) True show ?thesis by (simp add: loop_inv_done)
  next
    case False
    let ?f = "for_top_nodes ts (new + level) ns []"
    have g: "paths_grow ns (fst ?f)" by (rule for_top_nodes_grow)
    from False 1(2) have w: "w (fst ?f) (snd ?f) new (level + 1) = Some r"
      by (simp add: case_prod_unfold)
    have "loop_inv (fst ?f) (snd ?f) (new + level)"
      using loop_inv_step [OF 1(3,4,5)] by simp
    then have l: "loop_inv (fst ?f) (snd ?f) (new + (level + 1) - 1)" by simp
    show ?thesis
      using 1(1) [OF w l mirrored_grow [OF g 1(4)] ascending_grow [OF g 1(5)]] .
  qed
qed

lemma mirrored_append_edge:
  assumes m: "mirrored ns" and u: "valid ns u" and l: "valid ns l"
  shows "mirrored (append_edge u l ns)"
  unfolding mirrored_def
proof (intro allI impI conjI)
  fix a b assume a: "valid (append_edge u l ns) a"
  then have va: "valid ns a" by simp
  { assume "b \<in> set (go_up (nd (append_edge u l ns) a))"
    then have "b \<in> set (go_up (nd ns a)) \<or> (a = l \<and> b = u)"
      by (auto simp: append_edge_fields split: if_splits)
    then show "a \<in> set (go_down (nd (append_edge u l ns) b))"
      using mirroredD(1) [OF m va, of b] u by (auto simp: append_edge_fields) }
  { assume "b \<in> set (go_down (nd (append_edge u l ns) a))"
    then have d: "b \<in> set (go_down (nd ns a)) \<or> (a = u \<and> b = l)"
      by (auto simp: append_edge_fields split: if_splits)
    then show "valid (append_edge u l ns) b"
      using mirroredD(2) [OF m va, of b] l by auto
    from d show "a \<in> set (go_up (nd (append_edge u l ns) b))"
      using mirroredD(3) [OF m va, of b] l by (auto simp: append_edge_fields) }
qed

lemma path_invD:
  assumes "path_inv ns" "valid ns a"
  shows "path_ge ns a" "path_le ns a"
  using assms unfolding path_inv_iff by blast+

lemma nonnegD: "nonneg ns \<Longrightarrow> valid ns a \<Longrightarrow> 0 \<le> longest_path (nd ns a)"
  unfolding nonneg_def by blast

lemma update_paths_path_inv:
  assumes P: "path_inv ns" and N: "nonneg ns" and M: "mirrored ns" and A: "ascending ns"
    and u: "valid ns u" and l: "valid ns l"
    and e: "elevation (nd ns l) < elevation (nd ns u)"
    and r: "update_paths u l (append_edge u l ns) = Some r"
  shows "path_inv r"
proof -
  let ?ns1 = "append_edge u l ns"
  let ?lp = "\<lambda>x. longest_path (nd ns x)"
  let ?gd = "\<lambda>x. go_down (nd ns x)"
  note f1 = append_edge_fields [of u l ns]
  from e have ul: "u \<noteq> l" by auto
  have gd1: "\<And>a. go_down (nd ?ns1 a) = (if a = u then ?gd a @ [l] else ?gd a)"
    using u by (simp add: f1)
  have gu1: "go_up (nd ?ns1 u) = go_up (nd ns u)" using ul by (simp add: f1)
  have lp1: "\<And>a. longest_path (nd ?ns1 a) = ?lp a" by (simp add: f1)
  have M1: "mirrored ?ns1" using M u l by (rule mirrored_append_edge)
  have A1: "ascending ?ns1" using A u l e by (rule ascending_append_edge)
  have ge: "\<And>a c. valid ns a \<Longrightarrow> c \<in> set (?gd a) \<Longrightarrow> ?lp c + 1 \<le> ?lp a"
    using path_invD(1) [OF P] unfolding path_ge_def by blast
  have le0: "\<And>a. valid ns a \<Longrightarrow> ?gd a = [] \<Longrightarrow> ?lp a = 0"
    using path_invD(2) [OF P] unfolding path_le_def by metis
  have le1: "\<And>a. valid ns a \<Longrightarrow> ?gd a \<noteq> [] \<Longrightarrow> \<exists>c\<in>set (?gd a). ?lp a \<le> ?lp c + 1"
    using path_invD(2) [OF P] unfolding path_le_def by metis
  have unotin: "\<And>a. valid ns a \<Longrightarrow> a \<notin> set (?gd a)"
    using descending(2) [OF M A] by fastforce
  show ?thesis
  proof (cases "?lp l + 1 > ?lp u")
    case False
    with r have rr: "r = ?ns1" by (simp add: update_paths_def lp1)
    have "path_ge ?ns1 a \<and> path_le ?ns1 a" if va: "valid ns a" for a
    proof (cases "a = u")
      case True
      have g: "path_ge ?ns1 u"
        unfolding path_ge_def gd1 lp1 using ge [OF u] False by auto
      have "\<exists>c\<in>set (?gd u @ [l]). ?lp u \<le> ?lp c + 1"
      proof (cases "?gd u = []")
        case True
        with le0 [OF u] nonnegD [OF N l] show ?thesis by simp
      next
        case False
        with le1 [OF u] show ?thesis by auto
      qed
      then have "path_le ?ns1 u" unfolding path_le_def gd1 lp1 by simp
      with g True show ?thesis by simp
    next
      case False
      have "path_ge ?ns1 a" unfolding path_ge_def gd1 lp1 using ge [OF va] False by simp
      moreover have "path_le ?ns1 a" unfolding path_le_def gd1 lp1
        using le0 [OF va] le1 [OF va] False by auto
      ultimately show ?thesis ..
    qed
    then show ?thesis unfolding rr path_inv_iff by simp
  next
    case taken: True
    let ?new = "?lp l + 1"
    let ?ns2 = "upd_node u (\<lambda>n. n\<lparr>longest_path := ?new\<rparr>) ?ns1"
    let ?ts = "go_up (nd ns u)"
    have g2: "paths_grow ?ns1 ?ns2" using taken by (auto simp: paths_grow_def nd_upd_node lp1)
    have gd2: "\<And>a. go_down (nd ?ns2 a) = (if a = u then ?gd a @ [l] else ?gd a)"
      by (simp add: gd1)
    have lp2: "\<And>a. longest_path (nd ?ns2 a) = (if a = u then ?new else ?lp a)"
      using u by (simp add: nd_upd_node lp1)
    from taken r have w: "while_top_nodes ?ns2 ?ts ?new 1 = Some r"
      by (simp add: update_paths_def Let_def lp1 gu1)
    have q1: "path_le ?ns2 a" if va: "valid ns a" for a
    proof (cases "a = u")
      case True
      then show ?thesis unfolding path_le_def gd2 lp2 using ul by simp
    next
      case False
      show ?thesis
      proof (cases "?gd a = []")
        case True
        with le0 [OF va] False show ?thesis unfolding path_le_def gd2 lp2 by simp
      next
        case ne: False
        with le1 [OF va] obtain c where c: "c \<in> set (?gd a)" "?lp a \<le> ?lp c + 1" by blast
        have "?lp c \<le> longest_path (nd ?ns2 c)" using taken by (simp add: lp2)
        with c(2) have "?lp a \<le> longest_path (nd ?ns2 c) + 1" by linarith
        moreover have "longest_path (nd ?ns2 a) = ?lp a" using False by (simp add: lp2)
        ultimately have "\<exists>c\<in>set (?gd a). longest_path (nd ?ns2 a) \<le> longest_path (nd ?ns2 c) + 1"
          using c(1) by auto
        with ne False show ?thesis unfolding path_le_def gd2 by simp
      qed
    qed
    have q2: "longest_path (nd ?ns2 c) + 1 \<le> longest_path (nd ?ns2 a) \<or>
        a \<in> set ?ts \<and> longest_path (nd ?ns2 c) \<le> ?new"
      if va: "valid ns a" and c: "c \<in> set (go_down (nd ?ns2 a))" for a c
    proof (cases "c = u")
      case True
      with c have "u \<in> set (?gd a)" using unotin [OF u] ul
        by (auto simp: gd1 split: if_splits)
      then have "a \<in> set ?ts" using mirroredD(3) [OF M va] by blast
      with True show ?thesis by (simp add: lp2)
    next
      case False
      show ?thesis
      proof (cases "a = u")
        case True
        with c have "c = l \<or> c \<in> set (?gd u)" by (auto simp: gd1)
        then have "?lp c + 1 \<le> ?new" using ge [OF u, of c] \<open>?lp u < ?new\<close> by auto
        with True False show ?thesis by (simp add: lp2)
      next
        case au: False
        with c have "c \<in> set (?gd a)" by (simp add: gd1)
        from ge [OF va this] au False show ?thesis by (simp add: lp2)
      qed
    qed
    have q3: "valid ns t \<and> (\<exists>c\<in>set (go_down (nd ?ns2 t)). ?new \<le> longest_path (nd ?ns2 c))"
      if t: "t \<in> set ?ts" for t
    proof -
      have vt: "valid ns t" using ascendingD(1) [OF A u t] .
      have "u \<in> set (?gd t)" using mirroredD(1) [OF M u t] .
      then have "u \<in> set (go_down (nd ?ns2 t))" by (auto simp: gd1)
      moreover have "?new \<le> longest_path (nd ?ns2 u)" by (simp add: lp2)
      ultimately show ?thesis using vt by blast
    qed
    have "loop_inv ?ns2 ?ts ?new"
      unfolding loop_inv_def using q1 q2 q3 by simp
    moreover have "?new + 1 - 1 = ?new" by simp
    ultimately have "loop_inv ?ns2 ?ts (?new + 1 - 1)" by (simp only:)
    from while_top_nodes_path_inv [OF w this mirrored_grow [OF g2 M1] ascending_grow [OF g2 A1]]
    show ?thesis .
  qed
qed

section \<open>The state of the grid scan\<close>

lemma set_node_objects: "set (node_objects ns) = {n. Some n \<in> set ns}"
  by (auto simp: node_objects_def split: option.splits)

lemma Some_in_set_iff: "Some n \<in> set ns \<longleftrightarrow> (\<exists>a. valid ns a \<and> nd ns a = n)"
  by (auto simp: valid_def nd_def in_set_conv_nth)

lemma summit_indices_eq:
  assumes "indices_ok ns"
  shows "summit_indices ns = summit_set ns"
proof -
  have "summit_indices ns =
    {node_i (nd ns a) | a. valid ns a \<and> go_up (nd ns a) = [] \<and> go_down (nd ns a) \<noteq> []}"
    unfolding summit_indices_def by (auto simp: set_node_objects Some_in_set_iff)
  also have "\<dots> = summit_set ns"
    using assms unfolding indices_ok_def summit_set_def by force
  finally show ?thesis .
qed

lemma paths_grow_xy:
  assumes "paths_grow ns ns'"
  shows "node_x (nd ns' k) = node_x (nd ns k)" "node_y (nd ns' k) = node_y (nd ns k)"
  using assms same_but_path [of "nd ns' k" "nd ns k"] by (simp_all add: paths_grow_def)

lemma append_edge_xy:
  "node_x (nd (append_edge u l ns) k) = node_x (nd ns k)"
  "node_y (nd (append_edge u l ns) k) = node_y (nd ns k)"
  by (simp_all add: append_edge_def nd_upd_node)

lemma go_down_fields:
  assumes "SkiMap_go_down s u l = Some s'"
    and u: "valid (nodes s) u" and l: "valid (nodes s) l"
  shows "width s' = width s" "height s' = height s" "rows s' = rows s"
    "length (nodes s') = length (nodes s)"
    "valid (nodes s') k = valid (nodes s) k"
    "elevation (nd (nodes s') k) = elevation (nd (nodes s) k)"
    "node_i (nd (nodes s') k) = node_i (nd (nodes s) k)"
    "node_x (nd (nodes s') k) = node_x (nd (nodes s) k)"
    "node_y (nd (nodes s') k) = node_y (nd (nodes s) k)"
    "go_down (nd (nodes s') k) =
       (if k = u then go_down (nd (nodes s) k) @ [l] else go_down (nd (nodes s) k))"
    "go_up (nd (nodes s') k) =
       (if k = l then go_up (nd (nodes s) k) @ [u] else go_up (nd (nodes s) k))"
    "summits s' = update_summits u l (nodes s') (summits s)"
proof -
  let ?ns1 = "append_edge u l (nodes s)"
  from assms(1) obtain r where r: "update_paths u l ?ns1 = Some r"
    and s': "s' = s\<lparr>nodes := r, summits := update_summits u l r (summits s)\<rparr>"
    by (rule go_downE)
  have g: "paths_grow ?ns1 r" using r by (rule update_paths_grow)
  note f = paths_grow_fields [OF g] paths_grow_xy [OF g]
  show "width s' = width s" "height s' = height s" "rows s' = rows s"
    "summits s' = update_summits u l (nodes s') (summits s)"
    by (simp_all add: s')
  show "length (nodes s') = length (nodes s)" "valid (nodes s') k = valid (nodes s) k"
    by (simp_all add: s' f)
  show "elevation (nd (nodes s') k) = elevation (nd (nodes s) k)"
    "node_i (nd (nodes s') k) = node_i (nd (nodes s) k)"
    "node_x (nd (nodes s') k) = node_x (nd (nodes s) k)"
    "node_y (nd (nodes s') k) = node_y (nd (nodes s) k)"
    by (simp_all add: s' f append_edge_fields append_edge_xy)
  show "go_down (nd (nodes s') k) =
       (if k = u then go_down (nd (nodes s) k) @ [l] else go_down (nd (nodes s) k))"
    using u by (simp add: s' f append_edge_fields)
  show "go_up (nd (nodes s') k) =
       (if k = l then go_up (nd (nodes s) k) @ [u] else go_up (nd (nodes s) k))"
    using l by (simp add: s' f append_edge_fields)
qed

lemma go_down_graph:
  assumes M: "mirrored (nodes s)" and A: "ascending (nodes s)"
    and P: "path_inv (nodes s)" and N: "nonneg (nodes s)"
    and u: "valid (nodes s) u" and l: "valid (nodes s) l"
    and e: "elevation (nd (nodes s) l) < elevation (nd (nodes s) u)"
  shows "\<exists>s'. SkiMap_go_down s u l = Some s' \<and> mirrored (nodes s') \<and> ascending (nodes s') \<and>
    path_inv (nodes s') \<and> nonneg (nodes s')"
proof -
  let ?ns1 = "append_edge u l (nodes s)"
  have A1: "ascending ?ns1" using A u l e by (rule ascending_append_edge)
  have M1: "mirrored ?ns1" using M u l by (rule mirrored_append_edge)
  have "valid ?ns1 u" using u by simp
  with A1 obtain r where r: "update_paths u l ?ns1 = Some r"
    using update_paths_terminates by blast
  have g: "paths_grow ?ns1 r" using r by (rule update_paths_grow)
  let ?s' = "s\<lparr>nodes := r, summits := update_summits u l r (summits s)\<rparr>"
  have "SkiMap_go_down s u l = Some ?s'" using r by (simp add: SkiMap_go_down_def)
  moreover have "mirrored r" using g M1 by (rule mirrored_grow)
  moreover have "ascending r" using g A1 by (rule ascending_grow)
  moreover have "path_inv r" using P N M A u l e r by (rule update_paths_path_inv)
  moreover have "nonneg r"
    unfolding nonneg_def
  proof (intro allI impI)
    fix a assume "valid r a"
    then have "valid (nodes s) a" by (simp add: paths_grow_fields(5) [OF g])
    from nonnegD [OF N this] paths_grow_fields(7) [OF g, of a]
    show "0 \<le> longest_path (nd r a)" by (simp add: append_edge_fields)
  qed
  ultimately show ?thesis by simp
qed

lemma go_down_summits:
  assumes g: "SkiMap_go_down s u l = Some s'"
    and u: "valid (nodes s) u" and l: "valid (nodes s) l" and ul: "u \<noteq> l"
    and I: "indices_ok (nodes s)" and S: "summits s = summit_set (nodes s)"
  shows "summits s' = summit_set (nodes s')"
proof -
  note f = go_down_fields [OF g u l]
  have iu: "node_i (nd (nodes s) u) = u" and il: "node_i (nd (nodes s) l) = l"
    using I u l unfolding indices_ok_def by blast+
  let ?gd = "\<lambda>a. go_down (nd (nodes s) a)" and ?gu = "\<lambda>a. go_up (nd (nodes s) a)"
  have mem: "\<And>a. a \<in> summits s \<longleftrightarrow> valid (nodes s) a \<and> ?gu a = [] \<and> ?gd a \<noteq> []"
    unfolding S summit_set_def by simp
  have "a \<in> summits s' \<longleftrightarrow> a \<in> summit_set (nodes s')" for a
  proof -
    have lhs: "a \<in> summits s' \<longleftrightarrow>
      (if a = u then (?gd u = [] \<and> ?gu u = []) \<or> u \<in> summits s
       else if a = l then ?gd l = [] \<and> l \<in> summits s
       else a \<in> summits s)"
      unfolding f(12) update_summits_def Let_def f(7,10,11) iu il using ul by auto
    have rhs: "a \<in> summit_set (nodes s') \<longleftrightarrow>
      (if a = u then ?gu u = [] else if a = l then False
       else valid (nodes s) a \<and> ?gu a = [] \<and> ?gd a \<noteq> [])"
      unfolding summit_set_def mem_Collect_eq f(5,10,11) using ul u l by auto
    show ?thesis unfolding lhs rhs using mem [of a] mem [of u] mem [of l] u by auto
  qed
  then show ?thesis by blast
qed

lemma in_set_count: "b \<in> set xs \<longleftrightarrow> count_list xs b \<noteq> 0"
  by (simp add: count_list_0_iff)

lemma edges_invD:
  assumes "edges_inv D ns" "valid ns a"
  shows "b \<in> set (go_down (nd ns a)) \<longleftrightarrow>
           (a, b) \<in> D \<and> elevation (nd ns b) < elevation (nd ns a)"
    and "b \<in> set (go_up (nd ns a)) \<longleftrightarrow>
           (a, b) \<in> D \<and> elevation (nd ns a) < elevation (nd ns b)"
proof -
  from assms have c: "count_list (go_down (nd ns a)) b =
          (if (a, b) \<in> D \<and> elevation (nd ns b) < elevation (nd ns a) then 1 else 0)"
    "count_list (go_up (nd ns a)) b =
          (if (a, b) \<in> D \<and> elevation (nd ns a) < elevation (nd ns b) then 1 else 0)"
    unfolding edges_inv_def by blast+
  show "b \<in> set (go_down (nd ns a)) \<longleftrightarrow>
           (a, b) \<in> D \<and> elevation (nd ns b) < elevation (nd ns a)"
    unfolding in_set_count c(1) by simp
  show "b \<in> set (go_up (nd ns a)) \<longleftrightarrow>
           (a, b) \<in> D \<and> elevation (nd ns a) < elevation (nd ns b)"
    unfolding in_set_count c(2) by simp
qed

lemma edges_graph:
  assumes E: "edges_inv D ns" and S: "sym D"
    and V: "\<And>a b. (a, b) \<in> D \<Longrightarrow> valid ns a \<and> valid ns b"
  shows "mirrored ns" "ascending ns"
proof -
  have sw: "\<And>a b. (a, b) \<in> D \<Longrightarrow> (b, a) \<in> D" using S by (meson symD)
  show "mirrored ns"
    unfolding mirrored_def
  proof (intro allI impI conjI)
    fix a b assume a: "valid ns a"
    { assume "b \<in> set (go_up (nd ns a))"
      then have d: "(a, b) \<in> D" "elevation (nd ns a) < elevation (nd ns b)"
        using edges_invD(2) [OF E a] by blast+
      then have "valid ns b" "(b, a) \<in> D" using V sw by blast+
      with d(2) show "a \<in> set (go_down (nd ns b))" using edges_invD(1) [OF E] by blast }
    { assume "b \<in> set (go_down (nd ns a))"
      then have d: "(a, b) \<in> D" "elevation (nd ns b) < elevation (nd ns a)"
        using edges_invD(1) [OF E a] by blast+
      then show vb: "valid ns b" using V by blast
      from d(1) have "(b, a) \<in> D" by (rule sw)
      with d(2) vb show "a \<in> set (go_up (nd ns b))" using edges_invD(2) [OF E] by blast }
  qed
  show "ascending ns"
    unfolding ascending_iff
  proof (intro allI impI)
    fix a b assume a: "valid ns a" and "b \<in> set (go_up (nd ns a))"
    then have d: "(a, b) \<in> D" "elevation (nd ns a) < elevation (nd ns b)"
      using edges_invD(2) [OF E a] by blast+
    with V show "valid ns b \<and> elevation (nd ns a) < elevation (nd ns b)" by blast
  qed
qed

lemma count_list_snoc: "count_list (xs @ [y]) b = count_list xs b + (if b = y then 1 else 0)"
  by (induction xs) simp_all

lemma edges_inv_insert:
  assumes E: "edges_inv D ns" and S: "sym D" and pq: "(p, q) \<notin> D" and ne: "p \<noteq> q"
    and e: "elevation (nd ns q) < elevation (nd ns p)"
    and v: "\<And>k. valid ns' k = valid ns k"
    and el: "\<And>k. elevation (nd ns' k) = elevation (nd ns k)"
    and gd: "\<And>k. go_down (nd ns' k) =
       (if k = p then go_down (nd ns k) @ [q] else go_down (nd ns k))"
    and gu: "\<And>k. go_up (nd ns' k) =
       (if k = q then go_up (nd ns k) @ [p] else go_up (nd ns k))"
  shows "edges_inv (insert (p, q) (insert (q, p) D)) ns'"
proof -
  have qp: "(q, p) \<notin> D" using S pq by (meson symD)
  show ?thesis
    unfolding edges_inv_def v el gd gu
  proof (intro allI impI conjI)
    fix a b assume a: "valid ns a"
    from E a have c: "count_list (go_down (nd ns a)) b =
          (if (a, b) \<in> D \<and> elevation (nd ns b) < elevation (nd ns a) then 1 else 0)"
      "count_list (go_up (nd ns a)) b =
          (if (a, b) \<in> D \<and> elevation (nd ns a) < elevation (nd ns b) then 1 else 0)"
      unfolding edges_inv_def by blast+
    show "count_list (if a = p then go_down (nd ns a) @ [q] else go_down (nd ns a)) b =
      (if (a, b) \<in> insert (p, q) (insert (q, p) D) \<and>
          elevation (nd ns b) < elevation (nd ns a) then 1 else 0)"
      using c(1) pq qp ne e by (auto simp: count_list_snoc)
    show "count_list (if a = q then go_up (nd ns a) @ [p] else go_up (nd ns a)) b =
      (if (a, b) \<in> insert (p, q) (insert (q, p) D) \<and>
          elevation (nd ns a) < elevation (nd ns b) then 1 else 0)"
      using c(2) pq qp ne e by (auto simp: count_list_snoc)
  qed
qed

lemma edges_inv_level:
  assumes E: "edges_inv D ns" and S: "sym D" and pq: "(p, q) \<notin> D"
    and e: "elevation (nd ns q) = elevation (nd ns p)"
  shows "edges_inv (insert (p, q) (insert (q, p) D)) ns"
proof -
  have qp: "(q, p) \<notin> D" using S pq by (meson symD)
  show ?thesis
    unfolding edges_inv_def
  proof (intro allI impI conjI)
    fix a b assume a: "valid ns a"
    from E a have c: "count_list (go_down (nd ns a)) b =
          (if (a, b) \<in> D \<and> elevation (nd ns b) < elevation (nd ns a) then 1 else 0)"
      "count_list (go_up (nd ns a)) b =
          (if (a, b) \<in> D \<and> elevation (nd ns a) < elevation (nd ns b) then 1 else 0)"
      unfolding edges_inv_def by blast+
    show "count_list (go_down (nd ns a)) b =
      (if (a, b) \<in> insert (p, q) (insert (q, p) D) \<and>
          elevation (nd ns b) < elevation (nd ns a) then 1 else 0)"
      using c(1) e by auto
    show "count_list (go_up (nd ns a)) b =
      (if (a, b) \<in> insert (p, q) (insert (q, p) D) \<and>
          elevation (nd ns a) < elevation (nd ns b) then 1 else 0)"
      using c(2) e by auto
  qed
qed

lemma scan_invI:
  assumes "width (b_map b) = width s0" "height (b_map b) = height s0"
    "rows (b_map b) = rows s0"
    "length (nodes (b_map b)) = width s0 * height s0"
    "\<forall>j. valid (nodes (b_map b)) j \<longleftrightarrow> j < n"
    "\<forall>j<n. cell_node s0 (nd (nodes (b_map b)) j) j"
    "sym D" "\<forall>a b. (a, b) \<in> D \<longrightarrow> a < n \<and> b < n"
    "edges_inv D (nodes (b_map b))"
    "path_inv (nodes (b_map b))" "nonneg (nodes (b_map b))"
    "summits s0 = {} \<longrightarrow> summits (b_map b) = summit_set (nodes (b_map b))"
    "\<forall>t\<in>set (b_log b). path_inv (nodes t) \<and>
        (summits s0 = {} \<longrightarrow> summits t = summit_indices (nodes t))"
  shows "scan_inv s0 n D b"
  unfolding scan_inv_def by (intro conjI) (fact assms)+

lemma scan_invD:
  assumes "scan_inv s0 n D b"
  shows "width (b_map b) = width s0" "height (b_map b) = height s0"
    "rows (b_map b) = rows s0"
    "length (nodes (b_map b)) = width s0 * height s0"
    "\<forall>j. valid (nodes (b_map b)) j \<longleftrightarrow> j < n"
    "\<forall>j<n. cell_node s0 (nd (nodes (b_map b)) j) j"
    "sym D" "\<forall>a b. (a, b) \<in> D \<longrightarrow> a < n \<and> b < n"
    "edges_inv D (nodes (b_map b))"
    "path_inv (nodes (b_map b))" "nonneg (nodes (b_map b))"
    "summits s0 = {} \<longrightarrow> summits (b_map b) = summit_set (nodes (b_map b))"
    "\<forall>t\<in>set (b_log b). path_inv (nodes t) \<and>
        (summits s0 = {} \<longrightarrow> summits t = summit_indices (nodes t))"
  using assms unfolding scan_inv_def by blast+

lemma scan_indices_ok:
  assumes "\<forall>j. valid ns j \<longleftrightarrow> j < n" "\<forall>j<n. cell_node s0 (nd ns j) j"
  shows "indices_ok ns"
  using assms unfolding indices_ok_def cell_node_def by blast

lemma sym_insert2: "sym D \<Longrightarrow> sym (insert (p, q) (insert (q, p) D))"
  unfolding sym_def by blast

lemma scan_link_down:
  assumes G: "scan_inv s0 n D b" and p: "p < n" and q: "q < n" and pq: "(p, q) \<notin> D"
    and e: "elevation (nd (nodes (b_map b)) q) < elevation (nd (nodes (b_map b)) p)"
  shows "\<exists>b'. call_go_down b (Some p) (Some q) = Some (Inr b') \<and>
    scan_inv s0 n (insert (p, q) (insert (q, p) D)) b' \<and>
    b_i b' = b_i b \<and> b_row_nodes b' = b_row_nodes b \<and>
    b_prev_row b' = b_prev_row b \<and> b_prev_row_nodes b' = b_prev_row_nodes b"
proof -
  let ?ns = "nodes (b_map b)"
  let ?D' = "insert (p, q) (insert (q, p) D)"
  note g = scan_invD [OF G]
  have vp: "valid ?ns p" and vq: "valid ?ns q" using g(5) p q by blast+
  from e have ne: "p \<noteq> q" by auto
  have V: "\<And>a b. (a, b) \<in> D \<Longrightarrow> valid ?ns a \<and> valid ?ns b" using g(5,8) by blast
  note MA = edges_graph [OF g(9) g(7) V]
  from go_down_graph [OF MA g(10,11) vp vq e]
  obtain s' where s': "SkiMap_go_down (b_map b) p q = Some s'"
    and P': "path_inv (nodes s')" and N': "nonneg (nodes s')" by blast
  note f = go_down_fields [OF s' vp vq]
  let ?b' = "b\<lparr>b_map := s', b_log := b_log b @ [s']\<rparr>"
  have call: "call_go_down b (Some p) (Some q) = Some (Inr ?b')"
    by (simp add: call_go_down_def s')
  have I: "indices_ok ?ns" using g(5,6) by (rule scan_indices_ok)
  have c5: "\<forall>j. valid (nodes s') j \<longleftrightarrow> j < n" unfolding f(5) using g(5) .
  have c6: "\<forall>j<n. cell_node s0 (nd (nodes s') j) j"
    unfolding cell_node_def f(6,7,8,9) using g(6) unfolding cell_node_def .
  have I': "indices_ok (nodes s')" using c5 c6 by (rule scan_indices_ok)
  have c8: "\<forall>a b. (a, b) \<in> ?D' \<longrightarrow> a < n \<and> b < n" using g(8) p q by auto
  have c9: "edges_inv ?D' (nodes s')"
    using g(9,7) pq ne e f(5,6,10,11) by (rule edges_inv_insert)
  have S': "summits s0 = {} \<longrightarrow> summits s' = summit_set (nodes s')"
  proof
    assume "summits s0 = {}"
    with g(12) have "summits (b_map b) = summit_set ?ns" by blast
    with s' vp vq ne I show "summits s' = summit_set (nodes s')" by (rule go_down_summits)
  qed
  have c13: "\<forall>t\<in>set (b_log b @ [s']). path_inv (nodes t) \<and>
        (summits s0 = {} \<longrightarrow> summits t = summit_indices (nodes t))"
    using g(13) P' S' summit_indices_eq [OF I'] by auto
  have "scan_inv s0 n ?D' ?b'"
  proof (rule scan_invI)
    show "width (b_map ?b') = width s0" "height (b_map ?b') = height s0"
      "rows (b_map ?b') = rows s0" "length (nodes (b_map ?b')) = width s0 * height s0"
      using g(1-4) f(1-4) by simp_all
    show "\<forall>j. valid (nodes (b_map ?b')) j \<longleftrightarrow> j < n" using c5 by simp
    show "\<forall>j<n. cell_node s0 (nd (nodes (b_map ?b')) j) j" using c6 by simp
    show "sym ?D'" using g(7) by (rule sym_insert2)
    show "\<forall>a b. (a, b) \<in> ?D' \<longrightarrow> a < n \<and> b < n" by (rule c8)
    show "edges_inv ?D' (nodes (b_map ?b'))" using c9 by simp
    show "path_inv (nodes (b_map ?b'))" "nonneg (nodes (b_map ?b'))" using P' N' by simp_all
    show "summits s0 = {} \<longrightarrow> summits (b_map ?b') = summit_set (nodes (b_map ?b'))"
      using S' by simp
    show "\<forall>t\<in>set (b_log ?b'). path_inv (nodes t) \<and>
        (summits s0 = {} \<longrightarrow> summits t = summit_indices (nodes t))"
      using c13 by simp
  qed
  with call show ?thesis by simp
qed

lemma scan_link_level:
  assumes G: "scan_inv s0 n D b" and p: "p < n" and q: "q < n" and pq: "(p, q) \<notin> D"
    and e: "elevation (nd (nodes (b_map b)) q) = elevation (nd (nodes (b_map b)) p)"
  shows "scan_inv s0 n (insert (p, q) (insert (q, p) D)) b"
proof -
  note g = scan_invD [OF G]
  show ?thesis
  proof (rule scan_invI)
    show "sym (insert (p, q) (insert (q, p) D))" using g(7) by (rule sym_insert2)
    show "\<forall>a b. (a, b) \<in> insert (p, q) (insert (q, p) D) \<longrightarrow> a < n \<and> b < n"
      using g(8) p q by auto
    show "edges_inv (insert (p, q) (insert (q, p) D)) (nodes (b_map b))"
      using g(9,7) pq e by (rule edges_inv_level)
  qed (fact g)+
qed

text \<open>The comparison of the new node \<open>p\<close> with a neighbour \<open>q\<close>, as both loops write it.\<close>

lemma scan_link:
  assumes G: "scan_inv s0 n D b" and p: "p < n" and q: "q < n" and ne: "p \<noteq> q"
    and pq: "(p, q) \<notin> D"
    and ep: "elevation (nd (nodes (b_map b)) p) = vp"
    and eq: "elevation (nd (nodes (b_map b)) q) = vq"
  shows "\<exists>b'. (if vq \<noteq> vp then
                 (if vq < vp then call_go_down b (Some p) (Some q)
                  else call_go_down b (Some q) (Some p))
               else Some (Inr b)) = Some (Inr b') \<and>
    scan_inv s0 n (insert (p, q) (insert (q, p) D)) b' \<and>
    b_i b' = b_i b \<and> b_row_nodes b' = b_row_nodes b \<and>
    b_prev_row b' = b_prev_row b \<and> b_prev_row_nodes b' = b_prev_row_nodes b"
proof -
  note g = scan_invD [OF G]
  have qp: "(q, p) \<notin> D" using g(7) pq by (meson symD)
  have sw: "insert (q, p) (insert (p, q) D) = insert (p, q) (insert (q, p) D)" by blast
  consider "vq = vp" | "vq < vp" | "vp < vq" by linarith
  then show ?thesis
  proof cases
    case 1
    with scan_link_level [OF G p q pq] ep eq show ?thesis by simp
  next
    case 2
    with scan_link_down [OF G p q pq] ep eq show ?thesis by simp
  next
    case 3
    with scan_link_down [OF G q p qp] ep eq show ?thesis by (simp add: sw)
  qed
qed

lemma nd_list_update:
  "k < length ns \<Longrightarrow> nd (ns[k := Some n]) j = (if j = k then n else nd ns j)"
  by (simp add: nd_def nth_list_update)

lemma valid_list_update:
  "k < length ns \<Longrightarrow> valid (ns[k := Some n]) j \<longleftrightarrow> j = k \<or> valid ns j"
  by (auto simp: valid_def nth_list_update)

lemma Node_fields [simp]:
  "node_i (Node i x y e) = i" "node_x (Node i x y e) = x" "node_y (Node i x y e) = y"
  "elevation (Node i x y e) = e" "go_down (Node i x y e) = []" "go_up (Node i x y e) = []"
  "longest_path (Node i x y e) = 0"
  by (simp_all add: Node_def)

lemma scan_new_node:
  assumes G: "scan_inv s0 k D b" and k: "k < width s0 * height s0"
    and c: "cell_node s0 n k" and e: "go_down n = []" "go_up n = []" "longest_path n = 0"
  shows "scan_inv s0 (Suc k) D
    (b\<lparr>b_map := (b_map b)\<lparr>nodes := (nodes (b_map b))[k := Some n]\<rparr>, b_row_nodes := rn\<rparr>)"
proof -
  let ?ns = "nodes (b_map b)"
  let ?ns' = "?ns[k := Some n]"
  note g = scan_invD [OF G]
  have kl: "k < length ?ns" using k g(4) by simp
  note nd' = nd_list_update [OF kl, of n] and valid' = valid_list_update [OF kl, of n]
  have nk: "\<not> valid ?ns k" using g(5) by simp
  have V: "\<And>a b. (a, b) \<in> D \<Longrightarrow> valid ?ns a \<and> valid ?ns b" using g(5,8) by blast
  have c5: "\<forall>j. valid ?ns' j \<longleftrightarrow> j < Suc k"
  proof
    fix j
    have "valid ?ns j \<longleftrightarrow> j < k" using g(5) by blast
    then show "valid ?ns' j \<longleftrightarrow> j < Suc k" unfolding valid' less_Suc_eq by blast
  qed
  have c6: "\<forall>j<Suc k. cell_node s0 (nd ?ns' j) j"
    unfolding nd' using g(6) c by (auto simp: less_Suc_eq)
  have c8: "\<forall>a b. (a, b) \<in> D \<longrightarrow> a < Suc k \<and> b < Suc k"
    using g(8) by (blast intro: less_SucI)
  have old: "\<And>a c. valid ?ns a \<Longrightarrow> c \<in> set (go_down (nd ?ns a)) \<Longrightarrow> c \<noteq> k"
    using edges_invD(1) [OF g(9)] g(8) by blast
  have c9: "edges_inv D ?ns'"
    unfolding edges_inv_def
  proof (intro allI impI)
    fix a b assume "valid ?ns' a"
    then consider "a = k" | "a \<noteq> k" "valid ?ns a" unfolding valid' by blast
    then show "count_list (go_down (nd ?ns' a)) b =
          (if (a, b) \<in> D \<and> elevation (nd ?ns' b) < elevation (nd ?ns' a) then 1 else 0) \<and>
        count_list (go_up (nd ?ns' a)) b =
          (if (a, b) \<in> D \<and> elevation (nd ?ns' a) < elevation (nd ?ns' b) then 1 else 0)"
    proof cases
      case 1
      then have "(a, b) \<notin> D" using g(8) by auto
      with 1 show ?thesis by (simp add: nd' e)
    next
      case 2
      have *: "(a, b) \<in> D \<Longrightarrow> b \<noteq> k" using g(8) by auto
      from g(9) 2(2) have "count_list (go_down (nd ?ns a)) b =
          (if (a, b) \<in> D \<and> elevation (nd ?ns b) < elevation (nd ?ns a) then 1 else 0) \<and>
        count_list (go_up (nd ?ns a)) b =
          (if (a, b) \<in> D \<and> elevation (nd ?ns a) < elevation (nd ?ns b) then 1 else 0)"
        unfolding edges_inv_def by blast
      with 2(1) * show ?thesis by (auto simp: nd')
    qed
  qed
  have c10: "path_inv ?ns'"
    unfolding path_inv_iff
  proof (intro allI impI)
    fix a assume "valid ?ns' a"
    then consider "a = k" | "a \<noteq> k" "valid ?ns a" unfolding valid' by blast
    then show "path_ge ?ns' a \<and> path_le ?ns' a"
    proof cases
      case 1
      then show ?thesis by (simp add: path_ge_def path_le_def nd' e)
    next
      case 2
      note o = old [OF 2(2)]
      from path_invD [OF g(10) 2(2)] have "path_ge ?ns a" "path_le ?ns a" .
      then have "path_ge ?ns' a" "path_le ?ns' a"
        unfolding path_ge_def path_le_def nd' using 2(1) o by auto
      then show ?thesis ..
    qed
  qed
  have c11: "nonneg ?ns'"
    unfolding nonneg_def valid' nd' using nonnegD [OF g(11)] e(3) by auto
  have "summit_set ?ns' = summit_set ?ns"
    unfolding summit_set_def valid' nd' using nk e(1) by auto
  with g(12) have c12: "summits s0 = {} \<longrightarrow> summits (b_map b) = summit_set ?ns'" by simp
  let ?b' = "b\<lparr>b_map := (b_map b)\<lparr>nodes := ?ns'\<rparr>, b_row_nodes := rn\<rparr>"
  show "scan_inv s0 (Suc k) D ?b'"
  proof (rule scan_invI)
    show "width (b_map ?b') = width s0" "height (b_map ?b') = height s0"
      "rows (b_map ?b') = rows s0" "length (nodes (b_map ?b')) = width s0 * height s0"
      using g(1-4) by simp_all
    show "\<forall>j. valid (nodes (b_map ?b')) j \<longleftrightarrow> j < Suc k" using c5 by simp
    show "\<forall>j<Suc k. cell_node s0 (nd (nodes (b_map ?b')) j) j" using c6 by simp
    show "sym D" by (fact g(7))
    show "\<forall>a b. (a, b) \<in> D \<longrightarrow> a < Suc k \<and> b < Suc k" by (rule c8)
    show "edges_inv D (nodes (b_map ?b'))" using c9 by simp
    show "path_inv (nodes (b_map ?b'))" "nonneg (nodes (b_map ?b'))" using c10 c11 by simp_all
    show "summits s0 = {} \<longrightarrow> summits (b_map ?b') = summit_set (nodes (b_map ?b'))"
      using c12 by simp
    show "\<forall>t\<in>set (b_log ?b'). path_inv (nodes t) \<and>
        (summits s0 = {} \<longrightarrow> summits t = summit_indices (nodes t))"
      using g(13) by simp
  qed
qed

section \<open>One cell of the scan\<close>

lemma cell_position:
  fixes x y w :: nat
  assumes "x < w"
  shows "(y * w + x) mod w = x" "(y * w + x) div w = y"
  using assms by simp_all

lemma cell_in_grid:
  fixes x y w h :: nat
  assumes "x < w" "y < h"
  shows "y * w + x < w * h"
proof -
  have "y * w + x < Suc y * w" using assms(1) by simp
  also have "\<dots> \<le> h * w" using assms(2) by (intro mult_le_mono1) simp
  finally show ?thesis by (simp add: mult.commute)
qed

lemma sym_done_pairs: "sym (done_pairs w k)"
  unfolding sym_def done_pairs_def adj_def by auto

lemma done_pairs_bound: "(a, b) \<in> done_pairs w k \<Longrightarrow> a < k \<and> b < k"
  by (simp add: done_pairs_def)

lemma done_pairs_Suc:
  assumes x: "x < w" and k: "k = y * w + x"
  shows "done_pairs w (Suc k) =
    (if 0 < y then insert (k, k - w) (insert (k - w, k) 
       (if 0 < x then insert (k, k - 1) (insert (k - 1, k) (done_pairs w k))
        else done_pairs w k))
     else (if 0 < x then insert (k, k - 1) (insert (k - 1, k) (done_pairs w k))
        else done_pairs w k))"
proof -
  have km: "k mod w = x" using cell_position(1) [OF x] k by simp
  have w0: "0 < w" using x by simp
  have yk: "0 < y \<longleftrightarrow> w \<le> k"
  proof (cases y)
    case 0
    with k x show ?thesis by simp
  next
    case (Suc y')
    with k show ?thesis by simp
  qed
  have xk: "0 < x \<Longrightarrow> 0 < k" using k by simp
  have low: "adj w k b \<longleftrightarrow> (b + 1 = k \<and> 0 < x) \<or> b + w = k" if "b < k" for b
    using that km unfolding adj_def by auto
  have low': "adj w a k \<longleftrightarrow> (a + 1 = k \<and> 0 < x) \<or> a + w = k" if "a < k" for a
    using that km unfolding adj_def by auto
  have kk: "\<not> adj w k k" using w0 unfolding adj_def by simp
  have split: "(a, b) \<in> done_pairs w (Suc k) \<longleftrightarrow>
      (a, b) \<in> done_pairs w k \<or>
      (a = k \<and> b < k \<and> ((b + 1 = k \<and> 0 < x) \<or> b + w = k)) \<or>
      (b = k \<and> a < k \<and> ((a + 1 = k \<and> 0 < x) \<or> a + w = k))" for a b
    unfolding done_pairs_def mem_Collect_eq prod.case less_Suc_eq
    using low [of b] low' [of a] kk by blast
  have e1: "b + 1 = k \<and> 0 < x \<longleftrightarrow> 0 < x \<and> b = k - 1" for b using xk by auto
  have e2: "b + w = k \<longleftrightarrow> 0 < y \<and> b = k - w" for b unfolding yk by auto
  have lt1: "0 < x \<Longrightarrow> k - 1 < k" using xk by simp
  have lt2: "0 < y \<Longrightarrow> k - w < k" using yk w0 by simp
  show ?thesis
  proof (intro set_eqI)
    fix p :: "nat \<times> nat"
    obtain a b where p: "p = (a, b)" by (cases p)
    show "p \<in> done_pairs w (Suc k) \<longleftrightarrow> p \<in> (if 0 < y then insert (k, k - w) (insert (k - w, k) 
       (if 0 < x then insert (k, k - 1) (insert (k - 1, k) (done_pairs w k))
        else done_pairs w k))
     else (if 0 < x then insert (k, k - 1) (insert (k - 1, k) (done_pairs w k))
        else done_pairs w k))"
      unfolding p split e1 e2 using lt1 lt2 by auto
  qed
qed

lemma rectangular_row:
  assumes "rectangular s0" "y < height s0"
  shows "length (rows s0 ! y) = width s0" "y < length (rows s0)"
  using assms unfolding rectangular_def by auto

lemma scan_elevation:
  assumes G: "scan_inv s0 n D b" and j: "y * width s0 + x < n" and x: "x < width s0"
  shows "elevation (nd (nodes (b_map b)) (y * width s0 + x)) = rows s0 ! y ! x"
proof -
  from scan_invD(6) [OF G] j
  have "cell_node s0 (nd (nodes (b_map b)) (y * width s0 + x)) (y * width s0 + x)" by blast
  then show ?thesis unfolding cell_node_def cell_position [OF x] by simp
qed

lemma scan_cell_left:
  assumes G: "scan_inv s0 (Suc k) D b"
    and k: "k = y * width s0 + x" and x: "x < width s0"
    and bi: "b_i b = k"
    and rn: "0 < x \<Longrightarrow> b_row_nodes b ! (x - 1) = Some (k - 1)"
    and nD: "\<And>q. (k, q) \<notin> D"
    and row: "row = rows s0 ! y"
  shows "\<exists>b'. cell_left row x b = Some (Inr b') \<and>
    scan_inv s0 (Suc k) (if 0 < x then insert (k, k - 1) (insert (k - 1, k) D) else D) b' \<and>
    b_i b' = b_i b \<and> b_row_nodes b' = b_row_nodes b \<and>
    b_prev_row b' = b_prev_row b \<and> b_prev_row_nodes b' = b_prev_row_nodes b"
proof (cases "0 < x")
  case False
  with G show ?thesis by (simp add: cell_left_def)
next
  case True
  then have k1: "k - 1 = y * width s0 + (x - 1)" and x1: "x - 1 < width s0"
    and kk: "k - 1 < Suc k" "k \<noteq> k - 1"
    using k x by simp_all
  have ek: "elevation (nd (nodes (b_map b)) k) = row ! x"
    unfolding k row using G _ x by (rule scan_elevation) (simp add: k)
  have ek1: "elevation (nd (nodes (b_map b)) (k - 1)) = row ! (x - 1)"
    unfolding k1 row using G _ x1 by (rule scan_elevation) (use k True in simp)
  from scan_link [OF G _ kk(1) kk(2) nD ek ek1]
  obtain b' where b': "(if row ! (x - 1) \<noteq> row ! x then
         (if row ! (x - 1) < row ! x then call_go_down b (Some k) (Some (k - 1))
          else call_go_down b (Some (k - 1)) (Some k))
       else Some (Inr b)) = Some (Inr b')"
    and r: "scan_inv s0 (Suc k) (insert (k, k - 1) (insert (k - 1, k) D)) b'"
      "b_i b' = b_i b" "b_row_nodes b' = b_row_nodes b"
      "b_prev_row b' = b_prev_row b" "b_prev_row_nodes b' = b_prev_row_nodes b"
    by auto
  have "cell_left row x b = Some (Inr b')"
    unfolding cell_left_def bi rn [OF True] using True b' by simp
  with r True show ?thesis by simp
qed

lemma scan_cell_up:
  assumes G: "scan_inv s0 (Suc k) D b"
    and R: "rectangular s0" and y: "y < height s0"
    and k: "k = y * width s0 + x" and x: "x < width s0"
    and bi: "b_i b = k"
    and pr: "if y = 0 then b_prev_row b = None
      else b_prev_row b = Some (rows s0 ! (y - 1)) \<and>
           (\<exists>prn. b_prev_row_nodes b = Some prn \<and> length prn = width s0 \<and>
              (\<forall>x'<width s0. prn ! x' = Some ((y - 1) * width s0 + x')))"
    and nD: "0 < y \<Longrightarrow> (k, k - width s0) \<notin> D"
    and row: "row = rows s0 ! y"
  shows "\<exists>b'. cell_up row x b = Some (Inr b') \<and>
    scan_inv s0 (Suc k)
      (if 0 < y then insert (k, k - width s0) (insert (k - width s0, k) D) else D) b' \<and>
    b_i b' = b_i b \<and> b_row_nodes b' = b_row_nodes b \<and>
    b_prev_row b' = b_prev_row b \<and> b_prev_row_nodes b' = b_prev_row_nodes b"
proof (cases "0 < y")
  case False
  with pr have "b_prev_row b = None" by simp
  with G False show ?thesis by (simp add: cell_up_def)
next
  case True
  let ?w = "width s0"
  let ?prev = "rows s0 ! (y - 1)"
  from True pr obtain prn where p: "b_prev_row b = Some ?prev"
    "b_prev_row_nodes b = Some prn" "length prn = ?w" "prn ! x = Some ((y - 1) * ?w + x)"
    using x by auto
  have y1: "y - 1 < height s0" using y by simp
  have lp: "length ?prev = ?w" using rectangular_row(1) [OF R y1] .
  have kw: "k - ?w = (y - 1) * ?w + x" using True k by (cases y) simp_all
  have kk: "k - ?w < Suc k" "k \<noteq> k - ?w" using True k x by (cases y; simp)+
  have ek: "elevation (nd (nodes (b_map b)) k) = row ! x"
    unfolding k row using G _ x by (rule scan_elevation) (simp add: k)
  have ek1: "elevation (nd (nodes (b_map b)) (k - ?w)) = ?prev ! x"
    unfolding kw using G _ x by (rule scan_elevation) (use kk(1) kw in simp)
  from scan_link [OF G _ kk(1) kk(2) nD [OF True] ek ek1]
  obtain b' where b': "(if ?prev ! x \<noteq> row ! x then
         (if ?prev ! x < row ! x then call_go_down b (Some k) (Some (k - ?w))
          else call_go_down b (Some (k - ?w)) (Some k))
       else Some (Inr b)) = Some (Inr b')"
    and r: "scan_inv s0 (Suc k) (insert (k, k - ?w) (insert (k - ?w, k) D)) b'"
      "b_i b' = b_i b" "b_row_nodes b' = b_row_nodes b"
      "b_prev_row b' = b_prev_row b" "b_prev_row_nodes b' = b_prev_row_nodes b"
    by auto
  have ne: "?prev \<noteq> []" "\<not> length ?prev \<le> x" "\<not> length prn \<le> x"
    using lp p(3) x by auto
  have "cell_up row x b = Some (Inr b')"
    unfolding cell_up_def p(1,2) option.case bi p(4) kw [symmetric] using ne b'
    by (auto split: if_splits)
  with r True show ?thesis by simp
qed

lemma scan_inv_locals:
  assumes "b_map b' = b_map b" "b_log b' = b_log b"
  shows "scan_inv s0 n D b' = scan_inv s0 n D b"
  unfolding scan_inv_def assms ..

lemma bind_result_Inr [simp]: "bind_result (Some (Inr a)) f = f a"
  by (simp add: bind_result_def)

lemma scan_cell:
  assumes R: "rectangular s0" and y: "y < height s0" and x: "x < width s0"
    and G: "scan_inv s0 (y * width s0 + x) (done_pairs (width s0) (y * width s0 + x)) b"
    and L: "row_inv s0 y x b"
  shows "\<exists>b'. build_cell y (rows s0 ! y) x b = Some (Inr b') \<and>
    scan_inv s0 (y * width s0 + Suc x) (done_pairs (width s0) (y * width s0 + Suc x)) b' \<and>
    row_inv s0 y (Suc x) b'"
proof -
  let ?w = "width s0"
  let ?row = "rows s0 ! y"
  define k where "k = y * ?w + x"
  let ?D = "done_pairs ?w k"
  note G' = G [folded k_def]
  note g = scan_invD [OF G']
  from L have bi: "b_i b = k" and lrn: "length (b_row_nodes b) = ?w"
    and rnx: "\<forall>x'<x. b_row_nodes b ! x' = Some (y * ?w + x')"
    and pr: "if y = 0 then b_prev_row b = None
      else b_prev_row b = Some (rows s0 ! (y - 1)) \<and>
           (\<exists>prn. b_prev_row_nodes b = Some prn \<and> length prn = ?w \<and>
              (\<forall>x'<?w. prn ! x' = Some ((y - 1) * ?w + x')))"
    unfolding row_inv_def k_def by blast+
  have kl: "k < ?w * height s0" unfolding k_def using x y by (rule cell_in_grid)
  have lrow: "length ?row = ?w" using rectangular_row(1) [OF R y] .
  let ?n = "Node k x y (?row ! x)"
  let ?b1 = "b\<lparr>b_map := (b_map b)\<lparr>nodes := (nodes (b_map b))[k := Some ?n]\<rparr>,
               b_row_nodes := (b_row_nodes b)[x := Some k]\<rparr>"
  have new: "cell_new y ?row x b = Some (Inr ?b1)"
    unfolding cell_new_def bi using lrow x kl g(4) lrn by simp
  have cn: "cell_node s0 ?n k"
    unfolding cell_node_def k_def cell_position [OF x] by simp
  have G1: "scan_inv s0 (Suc k) ?D ?b1"
    using G' kl cn by (rule scan_new_node) simp_all
  have bi1: "b_i ?b1 = k" using bi by simp
  have rn1: "0 < x \<Longrightarrow> b_row_nodes ?b1 ! (x - 1) = Some (k - 1)"
    using rnx lrn unfolding k_def by simp
  have nD: "\<And>q. (k, q) \<notin> ?D" using done_pairs_bound by blast
  from scan_cell_left [OF G1 k_def x bi1 rn1 nD refl]
  obtain b2 where b2: "cell_left ?row x ?b1 = Some (Inr b2)"
    and G2: "scan_inv s0 (Suc k)
      (if 0 < x then insert (k, k - 1) (insert (k - 1, k) ?D) else ?D) b2"
    and l2: "b_i b2 = b_i ?b1" "b_row_nodes b2 = b_row_nodes ?b1"
      "b_prev_row b2 = b_prev_row ?b1" "b_prev_row_nodes b2 = b_prev_row_nodes ?b1"
    by blast
  have bi2: "b_i b2 = k" using l2(1) bi by simp
  have pr2: "if y = 0 then b_prev_row b2 = None
      else b_prev_row b2 = Some (rows s0 ! (y - 1)) \<and>
           (\<exists>prn. b_prev_row_nodes b2 = Some prn \<and> length prn = ?w \<and>
              (\<forall>x'<?w. prn ! x' = Some ((y - 1) * ?w + x')))"
  proof -
    have e: "b_prev_row b2 = b_prev_row b" "b_prev_row_nodes b2 = b_prev_row_nodes b"
      using l2(3,4) by simp_all
    show ?thesis unfolding e by (rule pr)
  qed
  have nD2: "(k, k - ?w) \<notin> (if 0 < x then insert (k, k - 1) (insert (k - 1, k) ?D) else ?D)"
    if "0 < y"
  proof -
    from that have "?w \<le> k" unfolding k_def by (cases y) simp_all
    moreover have "0 < x \<Longrightarrow> 2 \<le> ?w" using x by simp
    ultimately have "0 < x \<Longrightarrow> k - ?w \<noteq> k - 1" "0 < x \<Longrightarrow> k \<noteq> k - 1" by auto
    with nD show ?thesis by auto
  qed
  from scan_cell_up [OF G2 R y k_def x bi2 pr2 nD2 refl]
  obtain b3 where b3: "cell_up ?row x b2 = Some (Inr b3)"
    and G3: "scan_inv s0 (Suc k)
      (if 0 < y then insert (k, k - ?w) (insert (k - ?w, k)
         (if 0 < x then insert (k, k - 1) (insert (k - 1, k) ?D) else ?D))
       else (if 0 < x then insert (k, k - 1) (insert (k - 1, k) ?D) else ?D)) b3"
    and l3: "b_i b3 = b_i b2" "b_row_nodes b3 = b_row_nodes b2"
      "b_prev_row b3 = b_prev_row b2" "b_prev_row_nodes b3 = b_prev_row_nodes b2"
    by blast
  let ?b4 = "b3\<lparr>b_i := b_i b3 + 1\<rparr>"
  have cell: "build_cell y ?row x b = Some (Inr ?b4)"
    unfolding build_cell_def new b2 b3 bind_result_Inr ..
  have loc: "scan_inv s0 (Suc k) X ?b4 = scan_inv s0 (Suc k) X b3" for X
    by (rule scan_inv_locals) simp_all
  have G4: "scan_inv s0 (Suc k) (done_pairs ?w (Suc k)) ?b4"
    unfolding done_pairs_Suc [OF x k_def] loc by (rule G3)
  have L4: "row_inv s0 y (Suc x) ?b4"
    unfolding row_inv_def
  proof (intro conjI)
    show "b_i ?b4 = y * ?w + Suc x" using l3(1) bi2 by (simp add: k_def)
    show "length (b_row_nodes ?b4) = ?w" using l3(2) l2(2) lrn by simp
    show "\<forall>x'<Suc x. b_row_nodes ?b4 ! x' = Some (y * ?w + x')"
      using l3(2) l2(2) rnx lrn x by (auto simp: nth_list_update k_def less_Suc_eq)
    show "if y = 0 then b_prev_row ?b4 = None
      else b_prev_row ?b4 = Some (rows s0 ! (y - 1)) \<and>
           (\<exists>prn. b_prev_row_nodes ?b4 = Some prn \<and> length prn = ?w \<and>
              (\<forall>x'<?w. prn ! x' = Some ((y - 1) * ?w + x')))"
    proof -
      have e: "b_prev_row ?b4 = b_prev_row b2" "b_prev_row_nodes ?b4 = b_prev_row_nodes b2"
        using l3(3,4) by simp_all
      show ?thesis unfolding e by (rule pr2)
    qed
  qed
  have "y * ?w + Suc x = Suc k" by (simp add: k_def)
  with cell G4 L4 show ?thesis by (simp only:) blast
qed

lemma for_loop_upt:
  assumes step: "\<And>j st. a \<le> j \<Longrightarrow> j < n \<Longrightarrow> I j st \<Longrightarrow>
      \<exists>st'. body j st = Some (Inr st') \<and> I (Suc j) st'"
    and init: "I a st" and le: "a \<le> n"
  shows "\<exists>st'. for_loop [a..<n] body st = Some (Inr st') \<and> I n st'"
  using init le step
proof (induction "n - a" arbitrary: a st)
  case 0
  then show ?case by simp
next
  case (Suc d)
  then have lt: "a < n" by simp
  from Suc.prems(3) [OF order_refl lt Suc.prems(1)]
  obtain st1 where s1: "body a st = Some (Inr st1)" "I (Suc a) st1" by blast
  have "d = n - Suc a" using Suc.hyps(2) by simp
  from Suc.hyps(1) [OF this s1(2)] lt Suc.prems(3)
  obtain st' where "for_loop [Suc a..<n] body st1 = Some (Inr st')" "I n st'"
    by (metis Suc_leD Suc_leI)
  with s1(1) lt show ?case by (simp add: upt_conv_Cons)
qed

section \<open>The scan of the whole grid\<close>

lemma scan_row:
  assumes R: "rectangular s0" and y: "y < height s0"
    and G: "scan_inv s0 (y * width s0) (done_pairs (width s0) (y * width s0)) b"
    and P: "row_pre s0 y b"
  shows "\<exists>b'. build_row y b = Some (Inr b') \<and>
    scan_inv s0 (Suc y * width s0) (done_pairs (width s0) (Suc y * width s0)) b' \<and>
    row_pre s0 (Suc y) b'"
proof -
  let ?w = "width s0"
  let ?I = "\<lambda>x st. scan_inv s0 (y * ?w + x) (done_pairs ?w (y * ?w + x)) st \<and> row_inv s0 y x st"
  let ?b0 = "b\<lparr>b_row_nodes := replicate ?w None\<rparr>"
  note g = scan_invD [OF G]
  have "scan_inv s0 (y * ?w + 0) (done_pairs ?w (y * ?w + 0)) ?b0"
    using G by (simp add: scan_inv_locals [of ?b0 b])
  moreover have "row_inv s0 y 0 ?b0"
    using P unfolding row_pre_def row_inv_def by (cases "y = 0") simp_all
  ultimately have init: "?I 0 ?b0" ..
  have step: "\<exists>st'. build_cell y (rows s0 ! y) j st = Some (Inr st') \<and> ?I (Suc j) st'"
    if "j < ?w" "?I j st" for j st
    using scan_cell [OF R y that(1)] that(2) by blast
  from for_loop_upt [of 0 ?w ?I "build_cell y (rows s0 ! y)" ?b0, OF step init]
  obtain b1 where b1: "for_loop [0..<?w] (build_cell y (rows s0 ! y)) ?b0 = Some (Inr b1)"
    and G1: "scan_inv s0 (y * ?w + ?w) (done_pairs ?w (y * ?w + ?w)) b1"
    and L1: "row_inv s0 y ?w b1"
    by auto
  let ?b2 = "b1\<lparr>b_prev_row := Some (rows s0 ! y), b_prev_row_nodes := Some (b_row_nodes b1)\<rparr>"
  have ly: "\<not> length (rows s0) \<le> y" using rectangular_row(2) [OF R y] by simp
  have row: "build_row y b = Some (Inr ?b2)"
    unfolding build_row_def Let_def g(1,3) using ly b1 by simp
  have e: "Suc y * ?w = y * ?w + ?w" by simp
  have G2: "scan_inv s0 (Suc y * ?w) (done_pairs ?w (Suc y * ?w)) ?b2"
    unfolding e using G1 by (simp add: scan_inv_locals [of ?b2 b1])
  from L1 have l: "b_i b1 = y * ?w + ?w" "length (b_row_nodes b1) = ?w"
    "\<forall>x'<?w. b_row_nodes b1 ! x' = Some (y * ?w + x')"
    unfolding row_inv_def by blast+
  have P2: "row_pre s0 (Suc y) ?b2"
    unfolding row_pre_def using l by simp
  from row G2 P2 show ?thesis by blast
qed

lemma scan_init:
  "scan_inv s 0 {} (build_init s)"
proof (rule scan_invI)
  let ?ns = "replicate (width s * height s) None :: node option list"
  have nv: "\<And>j. \<not> valid ?ns j" by (simp add: valid_def)
  show "\<forall>j. valid (nodes (b_map (build_init s))) j \<longleftrightarrow> j < 0"
    using nv by (simp add: build_init_def)
  show "edges_inv {} (nodes (b_map (build_init s)))"
    unfolding edges_inv_def using nv by (simp add: build_init_def)
  show "path_inv (nodes (b_map (build_init s)))"
    unfolding path_inv_iff using nv by (simp add: build_init_def)
  show "nonneg (nodes (b_map (build_init s)))"
    unfolding nonneg_def using nv by (simp add: build_init_def)
  show "summits s = {} \<longrightarrow>
    summits (b_map (build_init s)) = summit_set (nodes (b_map (build_init s)))"
    unfolding summit_set_def using nv by (simp add: build_init_def)
qed (simp_all add: build_init_def sym_def)

lemma scan_build:
  assumes R: "rectangular s"
  shows "\<exists>b. build_nodes_log s = Some (Inr b) \<and>
    scan_inv s (width s * height s) (done_pairs (width s) (width s * height s)) b"
proof -
  let ?w = "width s"
  let ?J = "\<lambda>y st. scan_inv s (y * ?w) (done_pairs ?w (y * ?w)) st \<and> row_pre s y st"
  have "done_pairs ?w 0 = {}" by (simp add: done_pairs_def)
  then have "scan_inv s (0 * ?w) (done_pairs ?w (0 * ?w)) (build_init s)"
    using scan_init [of s] by simp
  moreover have "row_pre s 0 (build_init s)" by (simp add: row_pre_def build_init_def)
  ultimately have init: "?J 0 (build_init s)" ..
  have step: "\<exists>st'. build_row j st = Some (Inr st') \<and> ?J (Suc j) st'"
    if "j < height s" "?J j st" for j st
    using scan_row [OF R that(1)] that(2) by blast
  from for_loop_upt [of 0 "height s" ?J build_row "build_init s", OF step init]
  obtain b where "for_loop [0..<height s] build_row (build_init s) = Some (Inr b)"
    and "scan_inv s (height s * ?w) (done_pairs ?w (height s * ?w)) b"
    by auto
  then show ?thesis by (auto simp: build_nodes_log_def mult.commute)
qed

section \<open>The invariants during the scan\<close>

lemma build_nodes_of_log:
  "build_nodes_log s = Some (Inr b) \<Longrightarrow> SkiMap_build_nodes s = Some (Inr (b_map b))"
  by (simp add: SkiMap_build_nodes_def)

text \<open>
  C1: the scan of a rectangular grid returns, and the invariant of \<open>longest_path\<close>
  (0 without \<open>go_down\<close> entries, otherwise one more than the greatest value among the
  \<open>go_down\<close> entries) holds for every node after every call of \<open>_go_down\<close> that the
  scan makes, and in the final map.
\<close>

theorem build_path_invariant:
  assumes "rectangular s"
  shows "\<exists>b. build_nodes_log s = Some (Inr b) \<and>
    SkiMap_build_nodes s = Some (Inr (b_map b)) \<and>
    path_inv (nodes (b_map b)) \<and> (\<forall>t\<in>set (b_log b). path_inv (nodes t))"
proof -
  from scan_build [OF assms] obtain b where b: "build_nodes_log s = Some (Inr b)"
    and G: "scan_inv s (width s * height s) (done_pairs (width s) (width s * height s)) b"
    by blast
  note g = scan_invD [OF G]
  from g(13) have "\<forall>t\<in>set (b_log b). path_inv (nodes t)" by blast
  with b build_nodes_of_log [OF b] g(10) show ?thesis by blast
qed

theorem build_path_invariant_witness:
  "rectangular single_row \<and>
   (\<exists>b. build_nodes_log single_row = Some (Inr b) \<and>
    SkiMap_build_nodes single_row = Some (Inr (b_map b)) \<and>
    path_inv (nodes (b_map b)) \<and> list_all (\<lambda>t. path_inv (nodes t)) (b_log b))"
proof -
  have r: "rectangular single_row"
    by (simp add: rectangular_def single_row_def SkiMap_def)
  from build_path_invariant [OF r] r show ?thesis by (simp add: list_all_iff)
qed

text \<open>
  C2: the scan of a rectangular grid, started on a map whose summit set is empty as
  the constructor leaves it, keeps the summit set equal to the set of the indices of
  the nodes without \<open>go_up\<close> entry and with a \<open>go_down\<close> entry, after every call of
  \<open>_go_down\<close> and in the final map.
\<close>

theorem build_summit_set:
  assumes "rectangular s" and "summits s = {}"
  shows "\<exists>b. build_nodes_log s = Some (Inr b) \<and>
    SkiMap_build_nodes s = Some (Inr (b_map b)) \<and>
    summits (b_map b) = summit_indices (nodes (b_map b)) \<and>
    (\<forall>t\<in>set (b_log b). summits t = summit_indices (nodes t))"
proof -
  from scan_build [OF assms(1)] obtain b where b: "build_nodes_log s = Some (Inr b)"
    and G: "scan_inv s (width s * height s) (done_pairs (width s) (width s * height s)) b"
    by blast
  note g = scan_invD [OF G]
  have "indices_ok (nodes (b_map b))" using g(5,6) by (rule scan_indices_ok)
  from summit_indices_eq [OF this] g(12) assms(2)
  have "summits (b_map b) = summit_indices (nodes (b_map b))" by simp
  moreover from g(13) assms(2)
  have "\<forall>t\<in>set (b_log b). summits t = summit_indices (nodes t)" by blast
  ultimately show ?thesis using b build_nodes_of_log [OF b] by blast
qed

theorem build_summit_set_witness:
  "rectangular single_row \<and> summits single_row = {} \<and>
   (\<exists>b. build_nodes_log single_row = Some (Inr b) \<and>
    SkiMap_build_nodes single_row = Some (Inr (b_map b)) \<and>
    summits (b_map b) = summit_indices (nodes (b_map b)) \<and>
    list_all (\<lambda>t. summits t = summit_indices (nodes t)) (b_log b))"
proof -
  have r: "rectangular single_row"
    by (simp add: rectangular_def single_row_def SkiMap_def)
  have e: "summits single_row = {}" by (simp add: single_row_def SkiMap_def)
  from build_summit_set [OF r e] r e show ?thesis by (simp add: list_all_iff)
qed

section \<open>The graph of the grid\<close>

lemma cell_unique:
  fixes x y x' y' w :: nat
  assumes "x < w" "x' < w" "y * w + x = y' * w + x'"
  shows "y = y'" "x = x'"
proof -
  from assms(3) have "(y * w + x) div w = (y' * w + x') div w"
    "(y * w + x) mod w = (y' * w + x') mod w" by simp_all
  then show "y = y'" "x = x'"
    unfolding cell_position [OF assms(1)] cell_position [OF assms(2)] by simp_all
qed

lemma adj_right:
  fixes x y x' y' w :: nat
  assumes x: "x < w" and x': "x' < w"
  shows "(y * w + x) + 1 = y' * w + x' \<and> (y' * w + x') mod w \<noteq> 0 \<longleftrightarrow> y = y' \<and> x + 1 = x'"
proof
  assume a: "(y * w + x) + 1 = y' * w + x' \<and> (y' * w + x') mod w \<noteq> 0"
  then have x0: "x' \<noteq> 0" unfolding cell_position [OF x'] by simp
  show "y = y' \<and> x + 1 = x'"
  proof (cases "x + 1 < w")
    case True
    from a have "y * w + (x + 1) = y' * w + x'" by simp
    from cell_unique [OF True x' this] show ?thesis by simp
  next
    case False
    with x have "x + 1 = w" by simp
    with a have "Suc y * w + 0 = y' * w + x'" by simp
    from cell_unique(2) [OF _ x' this] x' x0 show ?thesis by simp
  qed
next
  assume "y = y' \<and> x + 1 = x'"
  then show "(y * w + x) + 1 = y' * w + x' \<and> (y' * w + x') mod w \<noteq> 0"
    unfolding cell_position [OF x'] by auto
qed

lemma adj_below:
  fixes x y x' y' w :: nat
  assumes x: "x < w" and x': "x' < w"
  shows "(y * w + x) + w = y' * w + x' \<longleftrightarrow> x = x' \<and> y + 1 = y'"
proof
  assume "(y * w + x) + w = y' * w + x'"
  then have "Suc y * w + x = y' * w + x'" by simp
  from cell_unique [OF x x' this] show "x = x' \<and> y + 1 = y'" by simp
next
  assume "x = x' \<and> y + 1 = y'"
  then show "(y * w + x) + w = y' * w + x'" by auto
qed

lemma adj_neighbours:
  assumes x: "x < w" and x': "x' < w"
  shows "adj w (y * w + x) (y' * w + x') \<longleftrightarrow> neighbours x y x' y'"
  unfolding adj_def neighbours_def
    adj_right [OF x x'] adj_right [OF x' x] adj_below [OF x x'] adj_below [OF x' x]
  by auto

text \<open>
  C5: the scan of a rectangular grid creates one node per cell, with the index, the
  coordinates and the elevation of the cell, and the \<open>go_down\<close> list of the node of a
  cell holds the node of another cell once when the two cells are next to each other
  in a row or a column and the other one is strictly lower, and not at all otherwise;
  the \<open>go_up\<close> lists hold the same edges reversed.
\<close>

theorem build_grid_graph:
  assumes R: "rectangular s"
  shows "\<exists>b. build_nodes_log s = Some (Inr b) \<and>
    SkiMap_build_nodes s = Some (Inr (b_map b)) \<and>
    length (nodes (b_map b)) = width s * height s \<and>
    (\<forall>y<height s. \<forall>x<width s.
       \<exists>n. nodes (b_map b) ! (y * width s + x) = Some n \<and>
         node_i n = y * width s + x \<and> node_x n = x \<and> node_y n = y \<and>
         elevation n = rows s ! y ! x \<and>
         (\<forall>c\<in>set (go_down n). c < width s * height s) \<and>
         (\<forall>y'<height s. \<forall>x'<width s.
            count_list (go_down n) (y' * width s + x') =
              (if neighbours x y x' y' \<and> rows s ! y' ! x' < rows s ! y ! x then 1 else 0) \<and>
            count_list (go_up n) (y' * width s + x') =
              (if neighbours x y x' y' \<and> rows s ! y ! x < rows s ! y' ! x' then 1 else 0)))"
proof -
  let ?w = "width s" and ?h = "height s"
  let ?D = "done_pairs ?w (?w * ?h)"
  from scan_build [OF R] obtain b where b: "build_nodes_log s = Some (Inr b)"
    and G: "scan_inv s (?w * ?h) ?D b"
    by blast
  note g = scan_invD [OF G]
  let ?ns = "nodes (b_map b)"
  have cell: "\<exists>n. ?ns ! (y * ?w + x) = Some n \<and>
         node_i n = y * ?w + x \<and> node_x n = x \<and> node_y n = y \<and>
         elevation n = rows s ! y ! x \<and>
         (\<forall>c\<in>set (go_down n). c < ?w * ?h) \<and>
         (\<forall>y'<?h. \<forall>x'<?w.
            count_list (go_down n) (y' * ?w + x') =
              (if neighbours x y x' y' \<and> rows s ! y' ! x' < rows s ! y ! x then 1 else 0) \<and>
            count_list (go_up n) (y' * ?w + x') =
              (if neighbours x y x' y' \<and> rows s ! y ! x < rows s ! y' ! x' then 1 else 0))"
    if y: "y < ?h" and x: "x < ?w" for y x
  proof -
    let ?a = "y * ?w + x"
    let ?n = "nd ?ns ?a"
    have a: "?a < ?w * ?h" using x y by (rule cell_in_grid)
    then have va: "valid ?ns ?a" using g(5) by blast
    have n: "?ns ! ?a = Some ?n" using va by (rule valid_nth)
    from g(6) a have "cell_node s ?n ?a" by blast
    then have f: "node_i ?n = ?a" "node_x ?n = x" "node_y ?n = y"
      "elevation ?n = rows s ! y ! x"
      unfolding cell_node_def cell_position [OF x] by simp_all
    have d: "\<forall>c\<in>set (go_down ?n). c < ?w * ?h"
      using edges_invD(1) [OF g(9) va] done_pairs_bound by blast
    have c: "count_list (go_down ?n) (y' * ?w + x') =
              (if neighbours x y x' y' \<and> rows s ! y' ! x' < rows s ! y ! x then 1 else 0) \<and>
            count_list (go_up ?n) (y' * ?w + x') =
              (if neighbours x y x' y' \<and> rows s ! y ! x < rows s ! y' ! x' then 1 else 0)"
      if y': "y' < ?h" and x': "x' < ?w" for y' x'
    proof -
      let ?b = "y' * ?w + x'"
      have b: "?b < ?w * ?h" using x' y' by (rule cell_in_grid)
      have eb: "elevation (nd ?ns ?b) = rows s ! y' ! x'" using G b x' by (rule scan_elevation)
      have D: "(?a, ?b) \<in> ?D \<longleftrightarrow> neighbours x y x' y'"
        unfolding done_pairs_def using a b adj_neighbours [OF x x'] by simp
      from g(9) va have "count_list (go_down ?n) ?b =
          (if (?a, ?b) \<in> ?D \<and> elevation (nd ?ns ?b) < elevation ?n then 1 else 0) \<and>
        count_list (go_up ?n) ?b =
          (if (?a, ?b) \<in> ?D \<and> elevation ?n < elevation (nd ?ns ?b) then 1 else 0)"
        unfolding edges_inv_def by blast
      then show ?thesis unfolding D eb f(4) .
    qed
    from n f d c show ?thesis by blast
  qed
  from b build_nodes_of_log [OF b] g(4) cell show ?thesis by blast
qed

theorem build_grid_graph_witness:
  "rectangular single_row \<and>
   (\<exists>b. build_nodes_log single_row = Some (Inr b) \<and>
      length (nodes (b_map b)) = 3 \<and>
      (\<exists>n. nodes (b_map b) ! 0 = Some n \<and> elevation n = 3 \<and>
         count_list (go_down n) 1 = 1 \<and> count_list (go_down n) 2 = 0 \<and>
         count_list (go_up n) 1 = 0))"
proof -
  have r: "rectangular single_row"
    by (simp add: rectangular_def single_row_def SkiMap_def)
  have hw: "height single_row = 1" "width single_row = 3" "rows single_row = [[3, 2, 1]]"
    by (simp_all add: single_row_def SkiMap_def)
  from build_grid_graph [OF r]
  obtain b where b: "build_nodes_log single_row = Some (Inr b)"
    and l: "length (nodes (b_map b)) = width single_row * height single_row"
    and c: "\<forall>y<height single_row. \<forall>x<width single_row.
       \<exists>n. nodes (b_map b) ! (y * width single_row + x) = Some n \<and>
         node_i n = y * width single_row + x \<and> node_x n = x \<and> node_y n = y \<and>
         elevation n = rows single_row ! y ! x \<and>
         (\<forall>c\<in>set (go_down n). c < width single_row * height single_row) \<and>
         (\<forall>y'<height single_row. \<forall>x'<width single_row.
            count_list (go_down n) (y' * width single_row + x') =
              (if neighbours x y x' y' \<and> rows single_row ! y' ! x' < rows single_row ! y ! x
               then 1 else 0) \<and>
            count_list (go_up n) (y' * width single_row + x') =
              (if neighbours x y x' y' \<and> rows single_row ! y ! x < rows single_row ! y' ! x'
               then 1 else 0))"
    by (elim exE conjE) (rule that)
  have "0 < height single_row" "0 < width single_row" by (simp_all add: hw)
  from c [rule_format, OF this]
  obtain n where n: "nodes (b_map b) ! (0 * width single_row + 0) = Some n"
    and en: "elevation n = rows single_row ! 0 ! 0"
    and e: "\<forall>y'<height single_row. \<forall>x'<width single_row.
            count_list (go_down n) (y' * width single_row + x') =
              (if neighbours 0 0 x' y' \<and> rows single_row ! y' ! x' < rows single_row ! 0 ! 0
               then 1 else 0) \<and>
            count_list (go_up n) (y' * width single_row + x') =
              (if neighbours 0 0 x' y' \<and> rows single_row ! 0 ! 0 < rows single_row ! y' ! x'
               then 1 else 0)"
    by (elim exE conjE) (rule that)
  have h1: "0 < height single_row" "1 < width single_row" by (simp_all add: hw)
  have h2: "0 < height single_row" "2 < width single_row" by (simp_all add: hw)
  from e [rule_format, OF h1]
  have c1: "count_list (go_down n) 1 = 1" "count_list (go_up n) 1 = 0"
    by (simp_all add: hw neighbours_def)
  from e [rule_format, OF h2]
  have c2: "count_list (go_down n) 2 = 0"
    by (simp add: hw neighbours_def numeral_2_eq_2)
  from n en have n0: "nodes (b_map b) ! 0 = Some n" "elevation n = 3" by (simp_all add: hw)
  from l have l3: "length (nodes (b_map b)) = 3" by (simp add: hw)
  from r b l3 n0 c1 c2 show ?thesis by blast
qed

section \<open>The reconstruction of the vertical drop\<close>

lemma finite_frontier: "finite (frontier s L S k)"
  by (induction k) simp_all

lemma walk_fold:
  fixes e :: "nat \<Rightarrow> int"
  shows "fold (\<lambda>n (acc, m). if P n then (acc @ [n], min (e n) m) else (acc, m)) xs (acc, m) =
    (acc @ filter P xs, fold (\<lambda>n m. min (e n) m) (filter P xs) m)"
  by (induction xs arbitrary: acc m) simp_all

lemma fold_min_props:
  fixes e :: "nat \<Rightarrow> int"
  shows "fold (\<lambda>n m. min (e n) m) xs m \<le> m \<and>
    (\<forall>x\<in>set xs. fold (\<lambda>n m. min (e n) m) xs m \<le> e x) \<and>
    (fold (\<lambda>n m. min (e n) m) xs m = m \<or> fold (\<lambda>n m. min (e n) m) xs m \<in> e ` set xs)"
proof (induction xs arbitrary: m)
  case Nil
  show ?case by simp
next
  case (Cons a xs)
  let ?r = "fold (\<lambda>n m. min (e n) m) xs (min (e a) m)"
  from Cons [of "min (e a) m"] have ih: "?r \<le> min (e a) m" "\<forall>x\<in>set xs. ?r \<le> e x"
    "?r = min (e a) m \<or> ?r \<in> e ` set xs" by blast+
  from ih(1) have 1: "?r \<le> m" "?r \<le> e a" by simp_all
  have 3: "?r = m \<or> ?r \<in> e ` set (a # xs)"
    using ih(3) by (auto simp: min_def split: if_splits)
  from 1 ih(2) 3 show ?case by simp
qed

lemma level_walk_eq:
  "level_walk s L level (prev, m) =
    (filter (\<lambda>n. longest_path (nd (nodes s) n) = L - level)
       (remdups (concat (map (\<lambda>n. go_down (nd (nodes s) n)) prev))),
     fold (\<lambda>n m. min (elevation (nd (nodes s) n)) m)
       (filter (\<lambda>n. longest_path (nd (nodes s) n) = L - level)
          (remdups (concat (map (\<lambda>n. go_down (nd (nodes s) n)) prev)))) m)"
  unfolding level_walk_def Let_def fst_conv snd_conv
  using walk_fold [of "\<lambda>n. longest_path (nd (nodes s) n) = L - level"
      "\<lambda>n. elevation (nd (nodes s) n)" _ "[]" m]
  by simp

lemma upto_int_Suc: "[1..int (Suc k)] = [1..int k] @ [int (Suc k)]"
  using upto_rec2 [of 1 "int (Suc k)"] by simp

lemma upto_nat: "[1..L] = [1..int (nat L)]"
  by (cases "0 \<le> L") simp_all

lemma walk_levels:
  fixes s L S
  defines "e \<equiv> \<lambda>c. elevation (nd (nodes s) c)"
  defines "W \<equiv> \<lambda>k. fold (level_walk s L) [1..int k] ([S], e S)"
  shows "set (fst (W k)) = frontier s L S k \<and>
    (\<forall>j\<le>k. \<forall>c\<in>frontier s L S j. snd (W k) \<le> e c) \<and>
    snd (W k) \<in> e ` (\<Union>j\<in>{0..k}. frontier s L S j)"
proof (induction k)
  case 0
  show ?case by (simp add: W_def)
next
  case (Suc k)
  obtain prev m where w: "W k = (prev, m)" by (cases "W k")
  with Suc have ih: "set prev = frontier s L S k"
    "\<forall>j\<le>k. \<forall>c\<in>frontier s L S j. m \<le> e c"
    "m \<in> e ` (\<Union>j\<in>{0..k}. frontier s L S j)" by simp_all
  let ?P = "\<lambda>n. longest_path (nd (nodes s) n) = L - int (Suc k)"
  let ?xs = "filter ?P (remdups (concat (map (\<lambda>n. go_down (nd (nodes s) n)) prev)))"
  let ?m' = "fold (\<lambda>n m. min (e n) m) ?xs m"
  have "W (Suc k) = level_walk s L (int (Suc k)) (W k)"
    unfolding W_def upto_int_Suc by simp
  then have ws: "W (Suc k) = (?xs, ?m')"
    unfolding w level_walk_eq e_def by simp
  have f: "set ?xs = frontier s L S (Suc k)"
    using ih(1) by auto
  from fold_min_props [of e ?xs m]
  have p: "?m' \<le> m" "\<forall>x\<in>set ?xs. ?m' \<le> e x" "?m' = m \<or> ?m' \<in> e ` set ?xs"
    by blast+
  have a: "\<forall>j\<le>Suc k. \<forall>c\<in>frontier s L S j. ?m' \<le> e c"
  proof (intro allI impI ballI)
    fix j c assume j: "j \<le> Suc k" and c: "c \<in> frontier s L S j"
    show "?m' \<le> e c"
    proof (cases "j = Suc k")
      case True
      with c f p(2) show ?thesis by blast
    next
      case False
      with j have "j \<le> k" by simp
      with ih(2) c have "m \<le> e c" by blast
      with p(1) show ?thesis by linarith
    qed
  qed
  have b: "?m' \<in> e ` (\<Union>j\<in>{0..Suc k}. frontier s L S j)"
  proof -
    from p(3) show ?thesis
    proof
      assume "?m' = m"
      with ih(3) obtain j c where "j \<le> k" "c \<in> frontier s L S j" "?m' = e c" by auto
      then have "Suc k \<ge> j" by simp
      then have "j \<in> {0..Suc k}" by simp
      with \<open>c \<in> frontier s L S j\<close>
      have "c \<in> (\<Union>j\<in>{0..Suc k}. frontier s L S j)" by (rule UN_I [rotated])
      with \<open>?m' = e c\<close> show ?thesis by (rule image_eqI)
    next
      assume "?m' \<in> e ` set ?xs"
      then obtain c where c: "c \<in> frontier s L S (Suc k)" "?m' = e c" unfolding f by blast
      have "Suc k \<in> {0..Suc k}" by simp
      with c(1) have "c \<in> (\<Union>j\<in>{0..Suc k}. frontier s L S j)" by (rule UN_I [rotated])
      with c(2) show ?thesis by (rule image_eqI)
    qed
  qed
  from f a b show ?case unfolding ws by simp
qed

lemma vertical_drop_spec: "vertical_drop s L S = drop_spec s L S"
proof -
  let ?e = "\<lambda>c. elevation (nd (nodes s) c)"
  let ?W = "fold (level_walk s L) [1..int (nat L)] ([S], ?e S)"
  let ?A = "?e ` (\<Union>k\<in>{0..nat L}. frontier s L S k)"
  from walk_levels [where s = s and L = L and S = S and k = "nat L"]
  have b: "\<forall>j\<le>nat L. \<forall>c\<in>frontier s L S j. snd ?W \<le> ?e c" and m: "snd ?W \<in> ?A"
    by blast+
  have "finite ?A" by (simp add: finite_frontier)
  moreover have "\<And>y. y \<in> ?A \<Longrightarrow> snd ?W \<le> y" using b by auto
  ultimately have "Min ?A = snd ?W" using m by (rule Min_eqI)
  then show ?thesis
    unfolding vertical_drop_def drop_spec_def Let_def upto_nat [of L] by simp
qed

lemma drop_spec_nonneg: "0 \<le> drop_spec s L S"
proof -
  let ?e = "\<lambda>c. elevation (nd (nodes s) c)"
  let ?A = "?e ` (\<Union>k\<in>{0..nat L}. frontier s L S k)"
  have "finite ?A" by (simp add: finite_frontier)
  moreover have "?e S \<in> ?A" by (intro imageI UN_I [of 0]) simp_all
  ultimately have "Min ?A \<le> ?e S" by (rule Min_le)
  then show ?thesis unfolding drop_spec_def by simp
qed

lemma max_key_from_props:
  "max_key_from f m xs \<in> set (m # xs) \<and> (\<forall>x\<in>set (m # xs). f x \<le> f (max_key_from f m xs))"
proof (induction xs arbitrary: m)
  case Nil
  show ?case by simp
next
  case (Cons a xs)
  let ?m = "if f m < f a then a else m"
  from Cons [of ?m] have ih: "max_key_from f ?m xs \<in> set (?m # xs)"
    "\<forall>x\<in>set (?m # xs). f x \<le> f (max_key_from f ?m xs)" by blast+
  from ih(2) have "f ?m \<le> f (max_key_from f ?m xs)" by simp
  then have "f m \<le> f (max_key_from f ?m xs)" "f a \<le> f (max_key_from f ?m xs)"
    by (auto split: if_splits)
  with ih show ?case by (auto split: if_splits)
qed

lemma fold_max_props:
  fixes g :: "nat \<Rightarrow> int"
  defines "F \<equiv> \<lambda>S m. if g S > m then g S else m"
  shows "m0 \<le> fold F xs m0 \<and> (\<forall>x\<in>set xs. g x \<le> fold F xs m0) \<and>
    (fold F xs m0 = m0 \<or> fold F xs m0 \<in> g ` set xs)"
proof (induction xs arbitrary: m0)
  case Nil
  show ?case by simp
next
  case (Cons a xs)
  from Cons [of "F a m0"] have ih: "F a m0 \<le> fold F xs (F a m0)"
    "\<forall>x\<in>set xs. g x \<le> fold F xs (F a m0)"
    "fold F xs (F a m0) = F a m0 \<or> fold F xs (F a m0) \<in> g ` set xs" by blast+
  have f: "m0 \<le> F a m0" "g a \<le> F a m0" "F a m0 = m0 \<or> F a m0 = g a"
    unfolding F_def by auto
  from ih(1) f(1,2) have 1: "m0 \<le> fold F xs (F a m0)" "g a \<le> fold F xs (F a m0)"
    by linarith+
  have 3: "fold F xs (F a m0) = m0 \<or> fold F xs (F a m0) \<in> g ` set (a # xs)"
    using ih(3) f(3) by auto
  from 1 ih(2) 3 show ?case by simp
qed

lemma report_spec:
  assumes fin: "finite (summits s)" and r: "report s = Inr (L, d)"
  shows "summits s \<noteq> {} \<and>
    L = Max ((\<lambda>S. longest_path (nd (nodes s) S)) ` summits s) \<and>
    maximal_summits s L \<noteq> {} \<and>
    d = Max (drop_spec s L ` maximal_summits s L)"
proof -
  let ?f = "\<lambda>S. longest_path (nd (nodes s) S)"
  let ?xs = "iter_summits s"
  have sx: "set ?xs = summits s" using fin by (simp add: iter_summits_def)
  from r obtain a as where xs: "?xs = a # as"
    by (cases ?xs) (simp_all add: report_def SkiMap_longest_paths_def max_key_def)
  have ck: "check_nodes (nodes s) (a # as) = None"
    using r by (cases "check_nodes (nodes s) (a # as)")
      (simp_all add: report_def SkiMap_longest_paths_def max_key_def xs del: check_nodes.simps)
  let ?u = "max_key_from ?f a as"
  let ?p = "?f ?u"
  let ?paths = "filter (\<lambda>n. ?f n = ?p) ?xs"
  have lp: "SkiMap_longest_paths s None = Inr ?paths"
    by (simp add: SkiMap_longest_paths_def max_key_def xs ck del: check_nodes.simps)
  from max_key_from_props [of ?f a as]
  have u: "?u \<in> set ?xs" "\<forall>x\<in>set ?xs. ?f x \<le> ?p" unfolding xs by blast+
  then have up: "?u \<in> set ?paths" by simp
  then obtain p0 ps where ps: "?paths = p0 # ps" by (cases ?paths) auto
  then have "p0 \<in> set ?paths" by simp
  then have p0: "?f p0 = ?p" by simp
  let ?F = "\<lambda>S m. if vertical_drop s (?f p0) S > m then vertical_drop s (?f p0) S else m"
  from r have "Inr (?f p0, fold ?F ?paths 0) = (Inr (L, d) :: error + int \<times> int)"
    unfolding report_def lp sum.case ps list.case Let_def by (simp only: ps)
  then have e: "(?f p0, fold ?F ?paths 0) = (L, d)" by (rule Inr_inject)
  from e have "?f p0 = L" by (rule Pair_inject)
  then have L0: "L = ?f p0" by (rule sym)
  from e have "fold ?F ?paths 0 = d" by (rule Pair_inject)
  then have d: "d = fold ?F ?paths 0" by (rule sym)
  have L: "L = ?p" unfolding L0 by (rule p0)
  have ne: "summits s \<noteq> {}" using sx xs by auto
  have "finite (?f ` summits s)" using fin by simp
  moreover have "\<And>y. y \<in> ?f ` summits s \<Longrightarrow> y \<le> ?p" using u(2) sx by auto
  moreover have "?p \<in> ?f ` summits s" using u(1) sx by auto
  ultimately have M: "Max (?f ` summits s) = ?p" by (rule Max_eqI)
  have ms: "set ?paths = maximal_summits s L"
    unfolding maximal_summits_def L using sx by auto
  then have mne: "maximal_summits s L \<noteq> {}" using up by auto
  let ?g = "\<lambda>S. drop_spec s L S"
  have F: "?F = (\<lambda>S m. if ?g S > m then ?g S else m)"
    unfolding vertical_drop_spec L0 ..
  from fold_max_props [of 0 ?g ?paths]
  have q: "0 \<le> d" "\<forall>x\<in>set ?paths. ?g x \<le> d" "d = 0 \<or> d \<in> ?g ` set ?paths"
    unfolding d F by blast+
  have "d \<in> ?g ` set ?paths"
  proof (cases "d = 0")
    case True
    from q(2) up have "?g ?u \<le> d" by blast
    with True drop_spec_nonneg [of s L ?u] have "d = ?g ?u" by linarith
    with up show ?thesis by blast
  next
    case False
    with q(3) show ?thesis by blast
  qed
  moreover have "finite (?g ` set ?paths)" by simp
  moreover have "\<And>y. y \<in> ?g ` set ?paths \<Longrightarrow> y \<le> d" using q(2) by auto
  ultimately have "Max (?g ` set ?paths) = d" by (intro Max_eqI)
  then have D: "d = Max (?g ` maximal_summits s L)" unfolding ms by simp
  from ne M L mne D show ?thesis by simp
qed

lemma find_longest_pathE:
  assumes "SkiMap_build_nodes m = Some (Inr s)" "find_longest_path m = Some (Inr (L, d))"
  shows "report s = Inr (L, d)"
  using assms by (simp add: find_longest_path_def)

text \<open>
  C8: when \<open>find_longest_path\<close> returns the pair \<open>(L, d)\<close>, \<open>L\<close> is the greatest
  \<open>longest_path\<close> among the summits; for every summit \<open>S\<close> that reaches it the list of
  nodes that the walk holds after level \<open>k\<close> is the frontier of level \<open>k\<close> as the
  specification defines it, and the drop computed for \<open>S\<close> is its elevation minus the
  least elevation in the frontiers of the levels 0 to \<open>L\<close>; \<open>d\<close> is the greatest of these
  drops.
\<close>

theorem reconstruction_refines:
  assumes b: "SkiMap_build_nodes m = Some (Inr s)" and fin: "finite (summits s)"
    and r: "find_longest_path m = Some (Inr (L, d))"
  shows "L = Max ((\<lambda>S. longest_path (nd (nodes s) S)) ` summits s) \<and>
    maximal_summits s L \<noteq> {} \<and>
    (\<forall>S\<in>maximal_summits s L.
       (\<forall>k\<le>nat L.
          set (fst (fold (level_walk s L) [1..int k] ([S], elevation (nd (nodes s) S)))) =
          frontier s L S k) \<and>
       vertical_drop s L S = drop_spec s L S) \<and>
    d = Max (drop_spec s L ` maximal_summits s L)"
proof -
  have "report s = Inr (L, d)" using b r by (rule find_longest_pathE)
  from report_spec [OF fin this]
  have 1: "L = Max ((\<lambda>S. longest_path (nd (nodes s) S)) ` summits s)"
    and 2: "maximal_summits s L \<noteq> {}"
    and 4: "d = Max (drop_spec s L ` maximal_summits s L)" by blast+
  have 3: "\<forall>S\<in>maximal_summits s L.
       (\<forall>k\<le>nat L.
          set (fst (fold (level_walk s L) [1..int k] ([S], elevation (nd (nodes s) S)))) =
          frontier s L S k) \<and>
       vertical_drop s L S = drop_spec s L S"
    using walk_levels [where s = s and L = L] vertical_drop_spec [of s L] by blast
  from 1 2 3 4 show ?thesis by blast
qed

theorem reconstruction_refines_witness:
  "SkiMap_build_nodes single_row = Some (Inr single_row_built) \<and>
   finite (summits single_row_built) \<and>
   find_longest_path single_row = Some (Inr (2, 2)) \<and>
   2 = Max ((\<lambda>S. longest_path (nd (nodes single_row_built) S)) ` summits single_row_built) \<and>
   maximal_summits single_row_built 2 \<noteq> {} \<and>
   2 = Max (drop_spec single_row_built 2 ` maximal_summits single_row_built 2)"
proof -
  have b: "SkiMap_build_nodes single_row = Some (Inr single_row_built)" by code_simp
  have fin: "finite (summits single_row_built)" by (simp add: single_row_built_def)
  have r: "find_longest_path single_row = Some (Inr (2, 2))" by code_simp
  from reconstruction_refines [OF b fin r] b fin r show ?thesis by blast
qed

end
